theory Spec2Isabelle
  imports Main
begin

section \<open>Data model\<close>

text \<open>
  Node identifiers are signed integers (Go type \<open>NI\<close>); a negative value is never a valid
  node, and \<open>-1\<close> is used by the code as the "no node" sentinel.
\<close>

type_synonym NI = int

text \<open>
  \<open>Half\<close> is the half arc of a labeled adjacency list: the target node and an opaque label.
  A labeled graph is a slice of slices of \<open>Half\<close>; an unlabeled one a slice of slices of
  \<open>NI\<close>.
\<close>

record 'l Half =
  To :: NI
  Label :: 'l

type_synonym 'l LabeledAdjacencyList = "'l Half list list"

type_synonym AdjacencyList = "NI list list"

text \<open>
  A Go slice index outside \<open>[0, len)\<close> panics. Recursion that is bounded by a depth budget
  reports an exhausted budget as a separate error.
\<close>

datatype error = IndexOutOfRange | NegativeBitIndex | FuelExhausted

definition at :: "'a list \<Rightarrow> int \<Rightarrow> error + 'a" where
  "at xs i = (if 0 \<le> i \<and> i < int (length xs) then Inr (xs ! nat i) else Inl IndexOutOfRange)"

definition put :: "'a list \<Rightarrow> int \<Rightarrow> 'a \<Rightarrow> error + 'a list" where
  "put xs i v = (if 0 \<le> i \<and> i < int (length xs) then Inr (xs[nat i := v]) else Inl IndexOutOfRange)"


subsection \<open>Graph-theoretic vocabulary\<close>

text \<open>The arc relation of a labeled and of an unlabeled graph.\<close>

definition arcs :: "'l LabeledAdjacencyList \<Rightarrow> (NI \<times> NI) set" where
  "arcs g = {(u, v). 0 \<le> u \<and> u < int (length g) \<and> v \<in> To ` set (g ! nat u)}"

definition arcsU :: "AdjacencyList \<Rightarrow> (NI \<times> NI) set" where
  "arcsU g = {(u, v). 0 \<le> u \<and> u < int (length g) \<and> v \<in> set (g ! nat u)}"

text \<open>The node identifiers \<open>0..N-1\<close> of a graph of order \<open>N\<close>.\<close>

definition nodes :: "'a list \<Rightarrow> NI set" where
  "nodes g = {n. 0 \<le> n \<and> n < int (length g)}"

text \<open>\<open>BoundsOk\<close>: every arc target lies in \<open>[0, N)\<close>.\<close>

definition BoundsOk :: "'l LabeledAdjacencyList \<Rightarrow> bool" where
  "BoundsOk g = (\<forall>hs \<in> set g. \<forall>h \<in> set hs. 0 \<le> To h \<and> To h < int (length g))"

definition BoundsOkU :: "AdjacencyList \<Rightarrow> bool" where
  "BoundsOkU g = (\<forall>ts \<in> set g. \<forall>t \<in> set ts. 0 \<le> t \<and> t < int (length g))"

text \<open>
  All arcs in the order in which a scan over nodes and arc lists meets them, starting the
  node count at \<open>fr\<close>.
\<close>

fun arcs_from :: "NI \<Rightarrow> 'l LabeledAdjacencyList \<Rightarrow> (NI \<times> NI) list" where
  "arcs_from fr [] = []"
| "arcs_from fr (hs # rest) = map (\<lambda>h. (fr, To h)) hs @ arcs_from (fr + 1) rest"

definition arc_list :: "'l LabeledAdjacencyList \<Rightarrow> (NI \<times> NI) list" where
  "arc_list g = arcs_from 0 g"

text \<open>The number of arcs into \<open>v\<close>, parallel arcs counted separately.\<close>

definition indegree :: "'l LabeledAdjacencyList \<Rightarrow> NI \<Rightarrow> nat" where
  "indegree g v = count_list (map snd (arc_list g)) v"

section \<open>Forest extraction: \<open>FromList\<close>\<close>

text \<open>
  \<open>PathEnd\<close> and \<open>FromList\<close> are declared outside the files at hand; the method only
  writes the \<open>From\<close> member of each path end and the \<open>Paths\<close> member of the result, all
  other members keep their zero values and are not modelled.
\<close>

record PathEnd =
  From :: NI

record FromList =
  Paths :: "PathEnd list"

text \<open>
  The inner loop over the arcs of node \<open>fr\<close>. The result is a panic, the early return with
  the conflicting node (\<open>Inr (Inl v)\<close>), or the updated paths.
\<close>

fun FromList_arcs :: "NI \<Rightarrow> 'l Half list \<Rightarrow> PathEnd list \<Rightarrow> error + (NI + PathEnd list)" where
  "FromList_arcs fr [] paths = Inr (Inr paths)"
| "FromList_arcs fr (to # rest) paths =
     (case at paths (To to) of
        Inl e \<Rightarrow> Inl e
      | Inr p \<Rightarrow>
          if From p \<ge> 0 then Inr (Inl (To to))
          else FromList_arcs fr rest (paths[nat (To to) := p\<lparr>From := fr\<rparr>]))"

fun FromList_nodes ::
  "NI \<Rightarrow> 'l LabeledAdjacencyList \<Rightarrow> PathEnd list \<Rightarrow> error + (NI + PathEnd list)" where
  "FromList_nodes fr [] paths = Inr (Inr paths)"
| "FromList_nodes fr (to # rest) paths =
     (case FromList_arcs fr to paths of
        Inr (Inr paths') \<Rightarrow> FromList_nodes (fr + 1) rest paths'
      | r \<Rightarrow> r)"

text \<open>The result pair: the forest (\<open>None\<close> for \<open>nil\<close>) and the conflicting node or \<open>-1\<close>.\<close>

definition FromList :: "'l LabeledAdjacencyList \<Rightarrow> error + (FromList option \<times> NI)" where
  "FromList g =
     (case FromList_nodes 0 g (replicate (length g) \<lparr>From = -1\<rparr>) of
        Inl e \<Rightarrow> Inl e
      | Inr (Inl v) \<Rightarrow> Inr (None, v)
      | Inr (Inr paths) \<Rightarrow> Inr (Some \<lparr>Paths = paths\<rparr>, -1))"

section \<open>Breadth-first traversal: \<open>BreadthFirstTraverse\<close>\<close>

text \<open>
  The visited set \<open>v\<close> is a bit set of \<open>N\<close> bits from the package \<open>bits\<close>, which is not among
  the files at hand; following the specification it is a bit-per-node set sized to \<open>N\<close>, here
  a set of bit numbers, and a bit number outside \<open>[0, N)\<close> is an index out of range.
  The callback \<open>visit\<close> acts on a state of its own, which is threaded through the calls.
  The loop state is the visited set, the callback's state and the slice \<open>next\<close>.

  The innermost loop, over the neighbours \<open>nb\<close> of a frontier node.
\<close>

fun BFT_arcs ::
  "nat \<Rightarrow> (NI \<Rightarrow> 'e \<Rightarrow> 'e) \<Rightarrow> NI list \<Rightarrow> NI set \<times> 'e \<times> NI list \<Rightarrow> error + (NI set \<times> 'e \<times> NI list)"
  where
  "BFT_arcs N visit [] (v, e, next) = Inr (v, e, next)"
| "BFT_arcs N visit (nb # nbs) (v, e, next) =
     (if nb < 0 \<or> int N \<le> nb then Inl IndexOutOfRange
      else if nb \<notin> v then BFT_arcs N visit nbs (insert nb v, visit nb e, next @ [nb])
      else BFT_arcs N visit nbs (v, e, next))"

text \<open>The loop over the nodes \<open>n\<close> of the frontier.\<close>

fun BFT_frontier ::
  "AdjacencyList \<Rightarrow> (NI \<Rightarrow> 'e \<Rightarrow> 'e) \<Rightarrow> NI list \<Rightarrow> NI set \<times> 'e \<times> NI list \<Rightarrow>
     error + (NI set \<times> 'e \<times> NI list)"
  where
  "BFT_frontier g visit [] st = Inr st"
| "BFT_frontier g visit (n # ns) st =
     (case at g n of
        Inl x \<Rightarrow> Inl x
      | Inr nbs \<Rightarrow>
          (case BFT_arcs (length g) visit nbs st of
             Inl x \<Rightarrow> Inl x
           | Inr st' \<Rightarrow> BFT_frontier g visit ns st'))"

text \<open>
  The outer loop runs while the frontier is not empty; at its end \<open>next\<close> becomes the
  frontier and \<open>next\<close> is emptied (it reuses the array of the old frontier, which is no
  longer read). The loop ends because a round that leaves a non-empty \<open>next\<close> has set a new
  bit among the \<open>N\<close> bits of \<open>v\<close>.
\<close>

function BFT_loop ::
  "AdjacencyList \<Rightarrow> (NI \<Rightarrow> 'e \<Rightarrow> 'e) \<Rightarrow> NI list \<Rightarrow> NI set \<Rightarrow> 'e \<Rightarrow> error + 'e" where
  "BFT_loop g visit frontier v e =
     (if frontier = [] then Inr e
      else
        case BFT_frontier g visit frontier (v, e, []) of
          Inl x \<Rightarrow> Inl x
        | Inr (v', e', next) \<Rightarrow> BFT_loop g visit next v' e')"
  by pat_completeness auto
termination
proof (relation "measure (\<lambda>(g, visit, frontier, v, e).
         2 * card ({n. 0 \<le> n \<and> n < int (length g)} - v) + (if frontier = [] then 0 else 1))")
  show "wf (measure (\<lambda>(g, visit, frontier, v, e).
         2 * card ({n. 0 \<le> n \<and> n < int (length g)} - v) + (if frontier = [] then 0 else 1)))"
    by simp
next
  fix g :: AdjacencyList and visit :: "NI \<Rightarrow> 'e \<Rightarrow> 'e" and frontier :: "NI list"
    and v :: "NI set" and e :: 'e and x2 v' y e' "next"
  assume ne: "frontier \<noteq> []"
    and fr: "BFT_frontier g visit frontier (v, e, []) = Inr x2"
    and x2: "(v', y) = x2" and y: "(e', next) = y"
  let ?U = "{n. 0 \<le> n \<and> n < int (length g)}"
  have arcs: "BFT_arcs N visit nbs (v, e, nx) = Inr (v', e', nx') \<Longrightarrow>
      v \<subseteq> v' \<and> v' \<subseteq> v \<union> {n. 0 \<le> n \<and> n < int N} \<and> set nx' = set nx \<union> (v' - v)"
    for N and visit :: "NI \<Rightarrow> 'e \<Rightarrow> 'e" and nbs v e nx v' e' nx'
  proof (induction nbs arbitrary: v e nx)
    case Nil
    then show ?case by auto
  next
    case (Cons nb nbs)
    show ?case
    proof (cases "nb < 0 \<or> int N \<le> nb")
      case True
      then show ?thesis using Cons.prems by simp
    next
      case range: False
      show ?thesis
      proof (cases "nb \<in> v")
        case True
        then show ?thesis using Cons.prems Cons.IH range by simp
      next
        case False
        then have "BFT_arcs N visit nbs (insert nb v, visit nb e, nx @ [nb]) = Inr (v', e', nx')"
          using Cons.prems range by simp
        from Cons.IH [OF this] show ?thesis using False range by auto
      qed
    qed
  qed
  have front: "BFT_frontier g visit ns (v, e, nx) = Inr (v', e', nx') \<Longrightarrow>
      v \<subseteq> v' \<and> v' \<subseteq> v \<union> ?U \<and> set nx' = set nx \<union> (v' - v)"
    for visit :: "NI \<Rightarrow> 'e \<Rightarrow> 'e" and ns v e nx v' e' nx'
  proof (induction ns arbitrary: v e nx)
    case Nil
    then show ?case by auto
  next
    case (Cons n ns)
    from Cons.prems obtain nbs v1 e1 nx1 where
      a: "BFT_arcs (length g) visit nbs (v, e, nx) = Inr (v1, e1, nx1)"
      and f: "BFT_frontier g visit ns (v1, e1, nx1) = Inr (v', e', nx')"
      by (auto split: sum.splits)
    from arcs [OF a] Cons.IH [OF f] show ?case by auto
  qed
  have f: "v \<subseteq> v'" "v' \<subseteq> v \<union> ?U" "set next = v' - v"
    using front [of visit frontier v e "[]" v' e' "next"] fr x2 y by auto
  have fin: "finite (?U - v)" by simp
  show "((g, visit, next, v', e'), (g, visit, frontier, v, e))
      \<in> measure (\<lambda>(g, visit, frontier, v, e).
           2 * card ({n. 0 \<le> n \<and> n < int (length g)} - v) + (if frontier = [] then 0 else 1))"
  proof (cases "next = []")
    case True
    have "card (?U - v') \<le> card (?U - v)" using f(1) fin by (intro card_mono) auto
    then show ?thesis using True ne by simp
  next
    case False
    then obtain x where "x \<in> v' - v" using f(3) by (cases "next") auto
    then have "?U - v' \<subset> ?U - v" using f(1,2) by auto
    then have "card (?U - v') < card (?U - v)" using fin by (rule psubset_card_mono [rotated])
    then show ?thesis using ne by simp
  qed
qed

declare BFT_loop.simps [simp del]

text \<open>The method: the start node is marked and visited, then the loop starts from it.\<close>

definition BreadthFirstTraverse ::
  "AdjacencyList \<Rightarrow> NI \<Rightarrow> (NI \<Rightarrow> 'e \<Rightarrow> 'e) \<Rightarrow> 'e \<Rightarrow> error + 'e" where
  "BreadthFirstTraverse g start visit e =
     (if start < 0 \<or> int (length g) \<le> start then Inl IndexOutOfRange
      else BFT_loop g visit [start] {start} (visit start e))"

section \<open>DFS-based topological ordering: \<open>Topological\<close>\<close>

text \<open>
  The variables captured by the closure \<open>df\<close>. The two \<open>big.Int\<close> bit sets are sets of bit
  indices. The index \<open>i\<close> of the code is the field \<open>ipos\<close>. \<open>cycle\<close> is a slice of \<open>ordering\<close> that extends to its end: \<open>None\<close> is the nil
  slice, \<open>Some x\<close> is \<open>ordering[x:]\<close>, so that it shares the array as in the code.
\<close>

record topo =
  ordering :: "NI list"
  ipos :: int
  temp :: "NI set"
  perm :: "NI set"
  cycleFound :: bool
  cycleStart :: NI
  cycle :: "nat option"

definition len_cycle :: "topo \<Rightarrow> int" where
  "len_cycle s = (case cycle s of None \<Rightarrow> 0 | Some x \<Rightarrow> int (length (ordering s)) - int x)"

definition the_cycle :: "topo \<Rightarrow> NI list" where
  "the_cycle s = (case cycle s of None \<Rightarrow> [] | Some x \<Rightarrow> drop x (ordering s))"

text \<open>
  \<open>df\<close> is recursive through the loop over the arcs of \<open>n\<close>. The recursion is bounded by a
  depth budget: each nested call that goes on to recurse has marked one more node in \<open>temp\<close>.
  \<open>df_arcs\<close> is the loop; its flag says that the loop body executed \<open>return\<close>.
  \<open>big.Int.Bit\<close> panics on a negative index.
\<close>

fun df :: "nat \<Rightarrow> 'l LabeledAdjacencyList \<Rightarrow> NI \<Rightarrow> topo \<Rightarrow> error + topo"
  and df_arcs :: "nat \<Rightarrow> 'l LabeledAdjacencyList \<Rightarrow> NI \<Rightarrow> 'l Half list \<Rightarrow> topo \<Rightarrow> error + (bool \<times> topo)"
  where
  "df 0 g n s = Inl FuelExhausted"
| "df (Suc f) g n s =
     (if n < 0 then Inl NegativeBitIndex
      else if n \<in> temp s then Inr (s\<lparr>cycleFound := True, cycleStart := n\<rparr>)
      else if n \<in> perm s then Inr s
      else
        case at g n of
          Inl e \<Rightarrow> Inl e
        | Inr hs \<Rightarrow>
            (case df_arcs f g n hs (s\<lparr>temp := insert n (temp s)\<rparr>) of
               Inl e \<Rightarrow> Inl e
             | Inr (True, s1) \<Rightarrow> Inr s1
             | Inr (False, s1) \<Rightarrow>
                 (case put (ordering s1) (ipos s1 - 1) n of
                    Inl e \<Rightarrow> Inl e
                  | Inr ordering' \<Rightarrow>
                      Inr (s1\<lparr>temp := temp s1 - {n}, perm := insert n (perm s1),
                             ipos := ipos s1 - 1, ordering := ordering'\<rparr>))))"
| "df_arcs f g n [] s = Inr (False, s)"
| "df_arcs f g n (nb # rest) s =
     (case df f g (To nb) s of
        Inl e \<Rightarrow> Inl e
      | Inr s1 \<Rightarrow>
          if cycleFound s1 then
            (if cycleStart s1 \<ge> 0 then
               (let x = int (length (ordering s1)) - 1 - len_cycle s1 in
                case put (ordering s1) x n of
                  Inl e \<Rightarrow> Inl e
                | Inr ordering' \<Rightarrow>
                    Inr (True, s1\<lparr>ordering := ordering', cycle := Some (nat x),
                                  cycleStart := (if n = cycleStart s1 then -1 else cycleStart s1)\<rparr>))
             else Inr (True, s1))
          else df_arcs f g n rest s1)"

text \<open>
  The loop over all nodes. On a found cycle the result is \<open>nil, cycle\<close>, at the end of the
  loop \<open>ordering, nil\<close>. The depth budget is \<open>N + 1\<close>.
\<close>

fun Topological_loop :: "'l LabeledAdjacencyList \<Rightarrow> NI list \<Rightarrow> topo \<Rightarrow> error + (NI list \<times> NI list)" where
  "Topological_loop g [] s = Inr (ordering s, [])"
| "Topological_loop g (n # ns) s =
     (if n \<in> perm s then Topological_loop g ns s
      else
        case df (Suc (length g)) g n s of
          Inl e \<Rightarrow> Inl e
        | Inr s1 \<Rightarrow>
            if cycleFound s1 then Inr ([], the_cycle s1)
            else Topological_loop g ns s1)"

definition Topological :: "'l LabeledAdjacencyList \<Rightarrow> error + (NI list \<times> NI list)" where
  "Topological g =
     Topological_loop g (map int [0..<length g])
       \<lparr>ordering = replicate (length g) 0, ipos = int (length g), temp = {}, perm = {},
        cycleFound = False, cycleStart = 0, cycle = None\<rparr>"

section \<open>Kahn's algorithm: \<open>TopologicalKahn\<close>\<close>

text \<open>
  The first loop, over the arc lists of the transpose \<open>tr\<close> with their index \<open>n\<close>: nodes
  without incoming arc are appended to \<open>S\<close>, for the others \<open>rem[n]\<close> is set to the
  in-degree.
\<close>

fun Kahn_init :: "NI \<Rightarrow> AdjacencyList \<Rightarrow> NI list \<Rightarrow> int list \<Rightarrow> error + (NI list \<times> int list)" where
  "Kahn_init n [] S rem = Inr (S, rem)"
| "Kahn_init n (fr # rest) S rem =
     (if length fr = 0 then Kahn_init (n + 1) rest (S @ [n]) rem
      else
        case put rem n (int (length fr)) of
          Inl e \<Rightarrow> Inl e
        | Inr rem' \<Rightarrow> Kahn_init (n + 1) rest S rem')"

text \<open>The loop over the arcs \<open>m\<close> of the node taken from \<open>S\<close>.\<close>

fun Kahn_arcs :: "'l Half list \<Rightarrow> NI list \<Rightarrow> int list \<Rightarrow> error + (NI list \<times> int list)" where
  "Kahn_arcs [] S rem = Inr (S, rem)"
| "Kahn_arcs (m # ms) S rem =
     (case at rem (To m) of
        Inl e \<Rightarrow> Inl e
      | Inr r \<Rightarrow>
          if r > 0 then
            (if r - 1 = 0 then Kahn_arcs ms (S @ [To m]) (rem[nat (To m) := r - 1])
             else Kahn_arcs ms S (rem[nat (To m) := r - 1]))
          else Kahn_arcs ms S rem)"

text \<open>
  The main loop: while \<open>S\<close> is not empty its last node is removed, appended to \<open>L\<close>, and its
  arcs are consumed. It ends because each round removes one node from \<open>S\<close> and a node is
  only added to \<open>S\<close> together with a decrement of a positive entry of \<open>rem\<close>.
\<close>

function Kahn_loop ::
  "'l LabeledAdjacencyList \<Rightarrow> NI list \<Rightarrow> NI list \<Rightarrow> int list \<Rightarrow> error + (NI list \<times> int list)" where
  "Kahn_loop g S L rem =
     (if S = [] then Inr (L, rem)
      else
        case at g (last S) of
          Inl e \<Rightarrow> Inl e
        | Inr ms \<Rightarrow>
            (case Kahn_arcs ms (butlast S) rem of
               Inl e \<Rightarrow> Inl e
             | Inr (S', rem') \<Rightarrow> Kahn_loop g S' (L @ [last S]) rem'))"
  by pat_completeness auto
termination
proof (relation "measure (\<lambda>(g, S, L, rem). sum_list (map nat rem) + length S)")
  show "wf (measure (\<lambda>(g, S, L, rem). sum_list (map nat rem) + length S))" by simp
next
  fix g :: "'l LabeledAdjacencyList" and S L :: "NI list" and rem :: "int list"
    and ms :: "'l Half list" and x S' rem'
  assume ne: "S \<noteq> []" and arcs: "Kahn_arcs ms (butlast S) rem = Inr x" and x: "(S', rem') = x"
  have meas: "Kahn_arcs ms S rem = Inr (S', rem') \<Longrightarrow>
     sum_list (map nat rem') + length S' \<le> sum_list (map nat rem) + length S"
    for ms :: "'l Half list" and S rem S' rem'
    proof (induction ms arbitrary: S rem)
      case Nil
      then show ?case by simp
    next
      case (Cons m ms)
      show ?case
      proof (cases "0 \<le> To m \<and> To m < int (length rem)")
        case False
        then show ?thesis using Cons.prems by (auto simp: at_def)
      next
        case True
        let ?k = "nat (To m)"
        let ?r = "rem ! ?k"
        have k: "?k < length rem" using True by auto
        have at: "at rem (To m) = Inr ?r" using True by (simp add: at_def)
        show ?thesis
        proof (cases "?r > 0")
          case False
          then show ?thesis using Cons.prems Cons.IH at by simp
        next
          case pos: True
          have "sum_list ((map nat rem)[?k := nat (?r - 1)])
              = sum_list (map nat rem) + nat (?r - 1) - (map nat rem) ! ?k"
            using k by (simp add: sum_list_update)
          moreover have "(map nat rem) ! ?k = nat ?r" using k by simp
          moreover have "nat ?r \<le> sum_list (map nat rem)"
          proof -
            have "(map nat rem) ! ?k \<in> set (map nat rem)" using k by (intro nth_mem) simp
            then have "nat ?r \<in> set (map nat rem)" using k by simp
            then show ?thesis by (rule member_le_sum_list) simp
          qed
          moreover have "nat (?r - 1) + 1 = nat ?r" using pos by simp
          ultimately have "sum_list ((map nat rem)[?k := nat (?r - 1)]) + 1 = sum_list (map nat rem)"
            by arith
          then have s: "sum_list (map nat (rem[?k := ?r - 1])) + 1 = sum_list (map nat rem)"
            by (simp add: map_update)
          show ?thesis
          proof (cases "?r - 1 = 0")
            case True
            then have "Kahn_arcs ms (S @ [To m]) (rem[?k := ?r - 1]) = Inr (S', rem')"
              using Cons.prems at pos by simp
            from Cons.IH [OF this] s show ?thesis by simp
          next
            case False
            then have "Kahn_arcs ms S (rem[?k := ?r - 1]) = Inr (S', rem')"
              using Cons.prems at pos by simp
            from Cons.IH [OF this] s show ?thesis by simp
          qed
        qed
      qed
    qed
  have "sum_list (map nat rem') + length S' \<le> sum_list (map nat rem) + length (butlast S)"
    using meas [of ms "butlast S" rem S' rem'] arcs x by simp
  moreover have "length (butlast S) < length S" using ne by simp
  ultimately show "((g, S', L @ [last S], rem'), (g, S, L, rem))
      \<in> measure (\<lambda>(g, S, L, rem). sum_list (map nat rem) + length S)"
    by simp
qed

declare Kahn_loop.simps [simp del]

text \<open>
  Recovery of the cyclic nodes: the inner loop with its \<open>break\<close>, and the loop over \<open>rem\<close>
  with index \<open>c\<close>.
\<close>

fun live_arc :: "'l Half list \<Rightarrow> int list \<Rightarrow> error + bool" where
  "live_arc [] rem = Inr False"
| "live_arc (nb # nbs) rem =
     (case at rem (To nb) of
        Inl e \<Rightarrow> Inl e
      | Inr r \<Rightarrow> if r > 0 then Inr True else live_arc nbs rem)"

fun Kahn_cycle ::
  "'l LabeledAdjacencyList \<Rightarrow> int list \<Rightarrow> NI \<Rightarrow> int list \<Rightarrow> NI list \<Rightarrow> error + NI list" where
  "Kahn_cycle g rem c [] cyc = Inr cyc"
| "Kahn_cycle g rem c (ind # ins) cyc =
     (if ind > 0 then
        (case at g c of
           Inl e \<Rightarrow> Inl e
         | Inr nbs \<Rightarrow>
             (case live_arc nbs rem of
                Inl e \<Rightarrow> Inl e
              | Inr True \<Rightarrow> Kahn_cycle g rem (c + 1) ins (cyc @ [c])
              | Inr False \<Rightarrow> Kahn_cycle g rem (c + 1) ins cyc))
      else Kahn_cycle g rem (c + 1) ins cyc)"

definition TopologicalKahn ::
  "'l LabeledAdjacencyList \<Rightarrow> AdjacencyList \<Rightarrow> error + (NI list \<times> NI list)" where
  "TopologicalKahn g tr =
     (case Kahn_init 0 tr [] (replicate (length g) 0) of
        Inl e \<Rightarrow> Inl e
      | Inr (S, rem) \<Rightarrow>
          (case Kahn_loop g S [] rem of
             Inl e \<Rightarrow> Inl e
           | Inr (L, rem') \<Rightarrow>
               (case Kahn_cycle g rem' 0 rem' [] of
                  Inl e \<Rightarrow> Inl e
                | Inr cyc \<Rightarrow> if length cyc > 0 then Inr ([], cyc) else Inr (L, []))))"

text \<open>
  \<open>tr\<close> is the transpose of \<open>g\<close>: it has the same nodes, and as many arcs from \<open>v\<close> to \<open>u\<close>
  as \<open>g\<close> has from \<open>u\<close> to \<open>v\<close>.
\<close>

definition is_transpose :: "'l LabeledAdjacencyList \<Rightarrow> AdjacencyList \<Rightarrow> bool" where
  "is_transpose g tr \<longleftrightarrow>
     length tr = length g \<and> BoundsOkU tr \<and>
     (\<forall>u \<in> nodes g. \<forall>v \<in> nodes g.
        count_list (tr ! nat v) u = count_list (map To (g ! nat u)) v)"

section \<open>Strongly connected components: \<open>Tarjan\<close>\<close>

text \<open>
  The variables captured by the closure \<open>sc\<close>. The counter \<open>x\<close> of the code is the field
  \<open>xnum\<close>, the slice \<open>S\<close> is the field \<open>stack\<close> (its top is the last element). The
  callback \<open>emit\<close> acts on a state of its own, the field \<open>est\<close>, and returns whether the
  traversal is to continue.
\<close>

record 'e tarjan =
  indexed :: "NI set"
  stacked :: "NI set"
  index :: "int list"
  lowlink :: "int list"
  xnum :: int
  stack :: "NI list"
  est :: 'e

text \<open>
  The inner \<open>for\<close> loop that pops the component of root \<open>n\<close> from \<open>S\<close>: \<open>c\<close> collects the
  popped nodes; an empty \<open>S\<close> makes \<open>S[last]\<close> panic.
\<close>

function pop_component ::
  "NI \<Rightarrow> NI list \<Rightarrow> NI list \<Rightarrow> NI set \<Rightarrow> error + (NI list \<times> NI list \<times> NI set)" where
  "pop_component n c S stk =
     (if S = [] then Inl IndexOutOfRange
      else if last S = n then Inr (c @ [last S], butlast S, stk - {last S})
      else pop_component n (c @ [last S]) (butlast S) (stk - {last S}))"
  by pat_completeness auto
termination
  by (relation "measure (\<lambda>(n, c, S, stk). length S)") auto

declare pop_component.simps [simp del]

text \<open>
  \<open>sc\<close> is recursive through the loop over the arcs of \<open>n\<close>, here \<open>sc_arcs\<close>. The recursion
  is bounded by a depth budget: \<open>sc\<close> is only called on a node that is not yet indexed and
  indexes it. The flag of the result is the return value of \<open>sc\<close>; for \<open>sc_arcs\<close> the flag
  \<open>False\<close> says that the loop body executed \<open>return false\<close>.
\<close>

fun sc :: "nat \<Rightarrow> 'l LabeledAdjacencyList \<Rightarrow> (NI list \<Rightarrow> 'e \<Rightarrow> bool \<times> 'e) \<Rightarrow> NI \<Rightarrow> 'e tarjan \<Rightarrow>
             error + (bool \<times> 'e tarjan)"
  and sc_arcs :: "nat \<Rightarrow> 'l LabeledAdjacencyList \<Rightarrow> (NI list \<Rightarrow> 'e \<Rightarrow> bool \<times> 'e) \<Rightarrow> NI \<Rightarrow>
             'l Half list \<Rightarrow> 'e tarjan \<Rightarrow> error + (bool \<times> 'e tarjan)"
  where
  "sc 0 g emit n t = Inl FuelExhausted"
| "sc (Suc f) g emit n t =
     (case put (index t) n (xnum t) of
        Inl e \<Rightarrow> Inl e
      | Inr index' \<Rightarrow>
          (case put (lowlink t) n (xnum t) of
             Inl e \<Rightarrow> Inl e
           | Inr lowlink' \<Rightarrow>
               (case at g n of
                  Inl e \<Rightarrow> Inl e
                | Inr nbs \<Rightarrow>
                    (case sc_arcs f g emit n nbs
                            (t\<lparr>index := index', indexed := insert n (indexed t),
                               lowlink := lowlink', xnum := xnum t + 1,
                               stack := stack t @ [n], stacked := insert n (stacked t)\<rparr>) of
                       Inl e \<Rightarrow> Inl e
                     | Inr (False, t1) \<Rightarrow> Inr (False, t1)
                     | Inr (True, t1) \<Rightarrow>
                         (case at (lowlink t1) n of
                            Inl e \<Rightarrow> Inl e
                          | Inr ln \<Rightarrow>
                              (case at (index t1) n of
                                 Inl e \<Rightarrow> Inl e
                               | Inr ix \<Rightarrow>
                                   if ln = ix then
                                     (case pop_component n [] (stack t1) (stacked t1) of
                                        Inl e \<Rightarrow> Inl e
                                      | Inr (c, S', stk') \<Rightarrow>
                                          (case emit c (est t1) of
                                             (ok, est') \<Rightarrow>
                                               Inr (ok, t1\<lparr>stack := S', stacked := stk',
                                                           est := est'\<rparr>)))
                                   else Inr (True, t1)))))))"
| "sc_arcs f g emit n [] t = Inr (True, t)"
| "sc_arcs f g emit n (nb # rest) t =
     (if To nb < 0 then Inl NegativeBitIndex
      else if To nb \<notin> indexed t then
        (case sc f g emit (To nb) t of
           Inl e \<Rightarrow> Inl e
         | Inr (False, t1) \<Rightarrow> Inr (False, t1)
         | Inr (True, t1) \<Rightarrow>
             (case at (lowlink t1) (To nb) of
                Inl e \<Rightarrow> Inl e
              | Inr lnb \<Rightarrow>
                  (case at (lowlink t1) n of
                     Inl e \<Rightarrow> Inl e
                   | Inr ln \<Rightarrow>
                       sc_arcs f g emit n rest
                         (if lnb < ln then t1\<lparr>lowlink := (lowlink t1)[nat n := lnb]\<rparr> else t1))))
      else if To nb \<in> stacked t then
        (case at (index t) (To nb) of
           Inl e \<Rightarrow> Inl e
         | Inr inb \<Rightarrow>
             (case at (lowlink t) n of
                Inl e \<Rightarrow> Inl e
              | Inr ln \<Rightarrow>
                  sc_arcs f g emit n rest
                    (if inb < ln then t\<lparr>lowlink := (lowlink t)[nat n := inb]\<rparr> else t)))
      else sc_arcs f g emit n rest t)"

text \<open>
  The loop over all nodes; it returns as soon as \<open>sc\<close> returns false. The depth budget is
  \<open>N\<close>. The result of \<open>Tarjan\<close> is the final state of the callback.
\<close>

fun Tarjan_loop ::
  "'l LabeledAdjacencyList \<Rightarrow> (NI list \<Rightarrow> 'e \<Rightarrow> bool \<times> 'e) \<Rightarrow> NI list \<Rightarrow> 'e tarjan \<Rightarrow>
     error + 'e tarjan" where
  "Tarjan_loop g emit [] t = Inr t"
| "Tarjan_loop g emit (n # ns) t =
     (if n \<notin> indexed t then
        (case sc (length g) g emit n t of
           Inl e \<Rightarrow> Inl e
         | Inr (False, t1) \<Rightarrow> Inr t1
         | Inr (True, t1) \<Rightarrow> Tarjan_loop g emit ns t1)
      else Tarjan_loop g emit ns t)"

definition Tarjan ::
  "'l LabeledAdjacencyList \<Rightarrow> (NI list \<Rightarrow> 'e \<Rightarrow> bool \<times> 'e) \<Rightarrow> 'e \<Rightarrow> error + 'e" where
  "Tarjan g emit e =
     (case Tarjan_loop g emit (map int [0..<length g])
             \<lparr>indexed = {}, stacked = {}, index = replicate (length g) 0,
              lowlink = replicate (length g) 0, xnum = 0, stack = [], est = e\<rparr> of
        Inl x \<Rightarrow> Inl x
      | Inr t \<Rightarrow> Inr (est t))"

text \<open>
  \<open>TarjanForward\<close>: the callback appends each component to \<open>r\<close> and never stops the
  traversal; the loop \<open>scc[last-i] = ci\<close> then stores the components in reverse order.
\<close>

fun TarjanForward_fill :: "int \<Rightarrow> int \<Rightarrow> NI list list \<Rightarrow> NI list list \<Rightarrow> error + NI list list" where
  "TarjanForward_fill lst k [] scc = Inr scc"
| "TarjanForward_fill lst k (ci # r) scc =
     (case put scc (lst - k) ci of
        Inl e \<Rightarrow> Inl e
      | Inr scc' \<Rightarrow> TarjanForward_fill lst (k + 1) r scc')"

definition TarjanForward :: "'l LabeledAdjacencyList \<Rightarrow> error + NI list list" where
  "TarjanForward g =
     (case Tarjan g (\<lambda>c r. (True, r @ [c])) [] of
        Inl e \<Rightarrow> Inl e
      | Inr r \<Rightarrow> TarjanForward_fill (int (length r) - 1) 0 r (replicate (length r) []))"

section \<open>The condensation graph: \<open>TarjanCondensation\<close>\<close>

text \<open>The loop \<open>cond[n] = NI(cn)\<close> over the members of the component \<open>c\<close>.\<close>

fun cond_mark :: "NI list \<Rightarrow> NI \<Rightarrow> NI list \<Rightarrow> error + NI list" where
  "cond_mark [] cn cond = Inr cond"
| "cond_mark (n # c) cn cond =
     (case put cond n cn of
        Inl e \<Rightarrow> Inl e
      | Inr cond' \<Rightarrow> cond_mark c cn cond')"

text \<open>
  The loop over the arcs of one member: \<open>ts\<close> (the slice \<open>tos\<close> of the code) is the list of target components collected so
  far and \<open>m\<close> the bit set of the components already added.
\<close>

fun cond_arcs :: "'l Half list \<Rightarrow> NI list \<Rightarrow> NI list \<times> NI set \<Rightarrow> error + (NI list \<times> NI set)" where
  "cond_arcs [] cond (ts, m) = Inr (ts, m)"
| "cond_arcs (to # rest) cond (ts, m) =
     (case at cond (To to) of
        Inl e \<Rightarrow> Inl e
      | Inr ct \<Rightarrow>
          if ct < 0 then Inl NegativeBitIndex
          else if ct \<notin> m then cond_arcs rest cond (ts @ [ct], insert ct m)
          else cond_arcs rest cond (ts, m))"

text \<open>The loop over the members of the component.\<close>

fun cond_members ::
  "'l LabeledAdjacencyList \<Rightarrow> NI list \<Rightarrow> NI list \<Rightarrow> NI list \<times> NI set \<Rightarrow>
     error + (NI list \<times> NI set)" where
  "cond_members g [] cond tm = Inr tm"
| "cond_members g (n # c) cond tm =
     (case at g n of
        Inl e \<Rightarrow> Inl e
      | Inr nbs \<Rightarrow>
          (case cond_arcs nbs cond tm of
             Inl e \<Rightarrow> Inl e
           | Inr tm' \<Rightarrow> cond_members g c cond tm'))"

text \<open>
  The loop \<open>for cn := len(scc) - 1; cn >= 0; cn--\<close>: the counter of the model is \<open>cn + 1\<close>.
\<close>

fun cond_loop ::
  "'l LabeledAdjacencyList \<Rightarrow> NI list list \<Rightarrow> nat \<Rightarrow> AdjacencyList \<Rightarrow> NI list \<Rightarrow>
     error + AdjacencyList" where
  "cond_loop g scc 0 cd cond = Inr cd"
| "cond_loop g scc (Suc cn) cd cond =
     (case at scc (int cn) of
        Inl e \<Rightarrow> Inl e
      | Inr c \<Rightarrow>
          (case cond_mark c (int cn) cond of
             Inl e \<Rightarrow> Inl e
           | Inr cond' \<Rightarrow>
               (case cond_members g c cond' ([], {int cn}) of
                  Inl e \<Rightarrow> Inl e
                | Inr (ts, m) \<Rightarrow>
                    (case put cd (int cn) ts of
                       Inl e \<Rightarrow> Inl e
                     | Inr cd' \<Rightarrow> cond_loop g scc cn cd' cond'))))"

definition TarjanCondensation ::
  "'l LabeledAdjacencyList \<Rightarrow> error + (NI list list \<times> AdjacencyList)" where
  "TarjanCondensation g =
     (case TarjanForward g of
        Inl e \<Rightarrow> Inl e
      | Inr scc \<Rightarrow>
          (case cond_loop g scc (length scc) (replicate (length scc) [])
                  (replicate (length g) 0) of
             Inl e \<Rightarrow> Inl e
           | Inr cd \<Rightarrow> Inr (scc, cd)))"

section \<open>Recording the calls of \<open>emit\<close>\<close>

text \<open>
  A callback that behaves as \<open>emit\<close> does and, beside the state of \<open>emit\<close>, keeps the list
  of the calls made so far: each with the component passed and the answer returned.
\<close>

definition logged ::
  "(NI list \<Rightarrow> 'e \<Rightarrow> bool \<times> 'e) \<Rightarrow> NI list \<Rightarrow> 'e \<times> (NI list \<times> bool) list \<Rightarrow>
     bool \<times> ('e \<times> (NI list \<times> bool) list)" where
  "logged emit c s = (case emit c (fst s) of (ok, e') \<Rightarrow> (ok, (e', snd s @ [(c, ok)])))"

section \<open>Auxiliary definitions for the proofs\<close>

text \<open>The discovery index and the low-link of a node, read from the two arrays.\<close>

abbreviation idx :: "'e tarjan \<Rightarrow> NI \<Rightarrow> int" where
  "idx t w \<equiv> index t ! nat w"

abbreviation low :: "'e tarjan \<Rightarrow> NI \<Rightarrow> int" where
  "low t w \<equiv> lowlink t ! nat w"

text \<open>A set of nodes that no arc leaves, and the arcs that leave a set of nodes.\<close>

definition closed :: "'l LabeledAdjacencyList \<Rightarrow> NI set \<Rightarrow> bool" where
  "closed g A \<longleftrightarrow> (\<forall>u v. u \<in> A \<longrightarrow> (u, v) \<in> arcs g \<longrightarrow> v \<in> A)"

definition out_arcs :: "'l LabeledAdjacencyList \<Rightarrow> NI set \<Rightarrow> (NI \<times> NI) set" where
  "out_arcs g W = {(w, v). (w, v) \<in> arcs g \<and> w \<in> W}"

text \<open>
  The callback \<open>emit\<close> records the components it is given: \<open>comps\<close> reads the list of the
  components emitted so far from the callback's state.
\<close>

definition emit_ok :: "(NI list \<Rightarrow> 'e \<Rightarrow> bool \<times> 'e) \<Rightarrow> ('e \<Rightarrow> NI list list) \<Rightarrow> bool" where
  "emit_ok emit comps \<longleftrightarrow> (\<forall>c e. comps (snd (emit c e)) = comps e @ [c])"

text \<open>
  The invariant of Tarjan's algorithm, \<open>es\<close> being the components emitted so far: the
  indexed nodes are those on the stack and those emitted, the discovery indices increase
  along the stack, and the nodes of the components emitted up to any moment form a set that
  no arc leaves.
\<close>

definition tj_inv :: "'l LabeledAdjacencyList \<Rightarrow> NI list list \<Rightarrow> 'e tarjan \<Rightarrow> bool" where
  "tj_inv g es t \<longleftrightarrow>
     length (index t) = length g \<and> length (lowlink t) = length g \<and>
     stacked t = set (stack t) \<and> distinct (stack t) \<and> distinct (concat es) \<and>
     indexed t = set (stack t) \<union> set (concat es) \<and> set (stack t) \<inter> set (concat es) = {} \<and>
     indexed t \<subseteq> nodes g \<and>
     sorted_wrt (\<lambda>a b. idx t a < idx t b) (stack t) \<and>
     (\<forall>w \<in> set (stack t). idx t w < xnum t \<and> low t w \<le> idx t w) \<and>
     (\<forall>k \<le> length es. closed g (set (concat (take k es))))"

text \<open>What a call leaves unchanged: the entries of the nodes indexed before it, but for the
  low-links of the nodes in \<open>X\<close>.\<close>

definition tj_frame :: "'e tarjan \<Rightarrow> 'e tarjan \<Rightarrow> NI set \<Rightarrow> bool" where
  "tj_frame t t' X \<longleftrightarrow>
     indexed t \<subseteq> indexed t' \<and> xnum t \<le> xnum t' \<and>
     (\<forall>w \<in> indexed t. idx t' w = idx t w) \<and>
     (\<forall>w \<in> indexed t - X. low t' w = low t w)"

text \<open>
  The examined arcs \<open>A\<close> respect the low-link of the active node \<open>p\<close>: each leads to an
  indexed node, and if that node is on the stack its index is not below the low-link.
\<close>

definition low_ok :: "'e tarjan \<Rightarrow> NI \<Rightarrow> (NI \<times> NI) set \<Rightarrow> bool" where
  "low_ok t p A \<longleftrightarrow>
     (\<forall>(w, v) \<in> A. v \<in> indexed t \<and> (v \<in> set (stack t) \<longrightarrow> low t p \<le> idx t v))"

text \<open>
  The invariant of the loop over the arcs of the active node \<open>p\<close>, which stands on the
  stack above \<open>base\<close> and below the nodes \<open>seg\<close> left there by its descendants.
\<close>

definition arcs_inv ::
  "'l LabeledAdjacencyList \<Rightarrow> NI list list \<Rightarrow> NI list \<Rightarrow> NI \<Rightarrow> NI list \<Rightarrow> (NI \<times> NI) set \<Rightarrow>
     'e tarjan \<Rightarrow> bool" where
  "arcs_inv g es base p seg A t \<longleftrightarrow>
     tj_inv g es t \<and> stack t = base @ p # seg \<and> out_arcs g (set seg) \<subseteq> A \<and> low_ok t p A \<and>
     (\<exists>u \<in> set (stack t). low t p = idx t u)"

text \<open>What holds when \<open>sc n\<close>, called in state \<open>t\<close>, returns true in state \<open>t'\<close>.\<close>

definition sc_post ::
  "'l LabeledAdjacencyList \<Rightarrow> ('e \<Rightarrow> NI list list) \<Rightarrow> 'e tarjan \<Rightarrow> NI \<Rightarrow> 'e tarjan \<Rightarrow> bool" where
  "sc_post g comps t n t' \<longleftrightarrow>
     tj_inv g (comps (est t')) t' \<and> tj_frame t t' {} \<and>
     (\<exists>new. comps (est t') = comps (est t) @ new) \<and> n \<in> indexed t' \<and>
     (\<exists>ext. stack t' = stack t @ ext \<and>
        (if ext = [] then xnum t \<le> low t' n
         else hd ext = n \<and> low t' n \<noteq> idx t' n \<and> low_ok t' n (out_arcs g (set ext)) \<and>
              (\<exists>u \<in> set (stack t'). low t' n = idx t' u)))"

text \<open>What holds when the loop over the arcs \<open>hs\<close> of \<open>p\<close>, started in state \<open>t\<close> with the
  examined arcs \<open>A\<close>, ends normally in state \<open>t'\<close>.\<close>

definition arcs_post ::
  "'l LabeledAdjacencyList \<Rightarrow> ('e \<Rightarrow> NI list list) \<Rightarrow> NI list \<Rightarrow> NI \<Rightarrow> (NI \<times> NI) set \<Rightarrow>
     'l Half list \<Rightarrow> 'e tarjan \<Rightarrow> 'e tarjan \<Rightarrow> bool" where
  "arcs_post g comps base p A hs t t' \<longleftrightarrow>
     (\<exists>seg' A'. arcs_inv g (comps (est t')) base p seg' A' t' \<and>
        A \<union> (\<lambda>h. (p, To h)) ` set hs \<subseteq> A') \<and>
     tj_frame t t' {p} \<and> (\<exists>new. comps (est t') = comps (est t) @ new)"

text \<open>The state of the traversal without the record of the calls.\<close>

definition unlogged :: "('e \<times> 'x) tarjan \<Rightarrow> 'e tarjan" where
  "unlogged t = \<lparr>indexed = indexed t, stacked = stacked t, index = index t, lowlink = lowlink t,
                  xnum = xnum t, stack = stack t, est = fst (est t)\<rparr>"

text \<open>A callback that appends each of its calls, with the answer, to the record.\<close>

definition records :: "(NI list \<Rightarrow> 'e \<times> (NI list \<times> bool) list \<Rightarrow> bool \<times> ('e \<times> (NI list \<times> bool) list)) \<Rightarrow> bool" where
  "records em \<longleftrightarrow> (\<forall>c s. snd (snd (em c s)) = snd s @ [(c, fst (em c s))])"

text \<open>
  The record when a call of \<open>sc\<close> returns \<open>ok\<close>: all the answers are true, but for the last
  one if \<open>sc\<close> returns false.
\<close>

definition log_post :: "bool \<Rightarrow> (NI list \<times> bool) list \<Rightarrow> bool" where
  "log_post ok log \<longleftrightarrow>
     (if ok then \<forall>x \<in> set log. snd x
      else log \<noteq> [] \<and> (\<forall>x \<in> set (butlast log). snd x) \<and> \<not> snd (last log))"

text \<open>The callback \<open>em\<close> acts on the first component of its state as \<open>emit\<close> does.\<close>

definition mirrors ::
  "(NI list \<Rightarrow> 'e \<Rightarrow> bool \<times> 'e) \<Rightarrow> (NI list \<Rightarrow> 'e \<times> 'x \<Rightarrow> bool \<times> ('e \<times> 'x)) \<Rightarrow> bool" where
  "mirrors emit em \<longleftrightarrow> (\<forall>c s. emit c (fst s) = (fst (em c s), fst (snd (em c s))))"

text \<open>
  The components \<open>scc\<close> list every node once, and no arc leads to a component that stands
  earlier in the list.
\<close>

definition fwd_ok :: "'l LabeledAdjacencyList \<Rightarrow> NI list list \<Rightarrow> bool" where
  "fwd_ok g scc \<longleftrightarrow>
     distinct (concat scc) \<and> set (concat scc) = nodes g \<and>
     (\<forall>i j u v. i < j \<longrightarrow> j < length scc \<longrightarrow> u \<in> set (scc ! j) \<longrightarrow> v \<in> set (scc ! i) \<longrightarrow>
        (u, v) \<notin> arcs g)"

text \<open>The list \<open>ts\<close> is the row of the component \<open>x\<close> in the condensation graph.\<close>

definition cd_row :: "'l LabeledAdjacencyList \<Rightarrow> NI list list \<Rightarrow> nat \<Rightarrow> NI list \<Rightarrow> bool" where
  "cd_row g scc x ts \<longleftrightarrow>
     distinct ts \<and>
     set ts = {int y | y. y < length scc \<and> y \<noteq> x \<and>
                  (\<exists>u \<in> set (scc ! x). \<exists>v \<in> set (scc ! y). (u, v) \<in> arcs g)}"

text \<open>No component is empty, and the members of a component reach each other.\<close>

definition comps_sc :: "'l LabeledAdjacencyList \<Rightarrow> NI list list \<Rightarrow> bool" where
  "comps_sc g es \<longleftrightarrow>
     (\<forall>c \<in> set es. c \<noteq> [] \<and> (\<forall>u \<in> set c. \<forall>v \<in> set c. (u, v) \<in> (arcs g)\<^sup>*))"

text \<open>Every node on the stack reaches the nodes above it.\<close>

definition stack_reach :: "'l LabeledAdjacencyList \<Rightarrow> NI list \<Rightarrow> bool" where
  "stack_reach g S \<longleftrightarrow> sorted_wrt (\<lambda>a b. (a, b) \<in> (arcs g)\<^sup>*) S"

text \<open>The low-link of \<open>p\<close> is the index of a node on the stack that \<open>p\<close> reaches.\<close>

definition low_reach :: "'l LabeledAdjacencyList \<Rightarrow> 'e tarjan \<Rightarrow> NI \<Rightarrow> bool" where
  "low_reach g t p \<longleftrightarrow> (\<exists>u \<in> set (stack t). low t p = idx t u \<and> (p, u) \<in> (arcs g)\<^sup>*)"

text \<open>\<open>pos_before L u v\<close>: \<open>u\<close> occurs in \<open>L\<close> at a position strictly before one of \<open>v\<close>.\<close>

definition pos_before :: "NI list \<Rightarrow> NI \<Rightarrow> NI \<Rightarrow> bool" where
  "pos_before L u v \<longleftrightarrow> (\<exists>a b. a < b \<and> b < length L \<and> L ! a = u \<and> L ! b = v)"

text \<open>
  The invariant of the depth-first search while no cycle has been found: the filled part
  \<open>ordering[i:]\<close> lists the nodes of \<open>perm\<close> once each, and each arc leaving a node of
  \<open>perm\<close> leads to a node further to the right.
\<close>

definition topo_inv :: "'l LabeledAdjacencyList \<Rightarrow> topo \<Rightarrow> bool" where
  "topo_inv g s \<longleftrightarrow>
     \<not> cycleFound s \<and> cycle s = None \<and> length (ordering s) = length g \<and>
     temp s \<subseteq> nodes g \<and> perm s \<subseteq> nodes g \<and> perm s \<inter> temp s = {} \<and>
     0 \<le> ipos s \<and> ipos s \<le> int (length g) \<and>
     set (drop (nat (ipos s)) (ordering s)) = perm s \<and>
     distinct (drop (nat (ipos s)) (ordering s)) \<and>
     (\<forall>u v. (u, v) \<in> arcs g \<longrightarrow> u \<in> perm s \<longrightarrow>
        pos_before (drop (nat (ipos s)) (ordering s)) u v)"

text \<open>
  What holds when \<open>df n\<close> returns with a cycle found, \<open>T\<close> being the nodes of the frames
  below: either the cycle is still being read out and ends with an arc into \<open>cycleStart\<close>,
  which is one of \<open>T\<close> or \<open>n\<close> itself, or it is complete.
\<close>

definition cyc_post :: "'l LabeledAdjacencyList \<Rightarrow> NI set \<Rightarrow> NI \<Rightarrow> topo \<Rightarrow> bool" where
  "cyc_post g T n s \<longleftrightarrow>
     cycleFound s \<and> length (ordering s) = length g \<and>
     (\<forall>x. cycle s = Some x \<longrightarrow> x < length g) \<and>
     length (the_cycle s) + card T \<le> length g \<and>
     successively (\<lambda>u v. (u, v) \<in> arcs g) (the_cycle s) \<and>
     ((0 \<le> cycleStart s \<and> cycleStart s \<in> T \<and>
         (if the_cycle s = [] then cycleStart s = n
          else hd (the_cycle s) = n \<and> (last (the_cycle s), cycleStart s) \<in> arcs g))
      \<or> (cycleStart s < 0 \<and> the_cycle s \<noteq> [] \<and>
           (last (the_cycle s), hd (the_cycle s)) \<in> arcs g))"



text \<open>\<open>nearer g s k\<close>: the nodes that \<open>s\<close> reaches in fewer than \<open>k\<close> hops.\<close>

definition nearer :: "AdjacencyList \<Rightarrow> NI \<Rightarrow> nat \<Rightarrow> NI set" where
  "nearer g s k = {x. \<exists>j<k. (s, x) \<in> arcsU g ^^ j}"

text \<open>
  The nodes newly visited while the arc list \<open>nbs\<close>, and while the arc lists of the frontier
  \<open>ns\<close>, are scanned, in the order of their visits.
\<close>

fun fresh :: "NI set \<Rightarrow> NI list \<Rightarrow> NI list" where
  "fresh v [] = []"
| "fresh v (nb # nbs) = (if nb \<notin> v then nb # fresh (insert nb v) nbs else fresh v nbs)"

fun fresh_frontier :: "AdjacencyList \<Rightarrow> NI set \<Rightarrow> NI list \<Rightarrow> NI list" where
  "fresh_frontier g v [] = []"
| "fresh_frontier g v (n # ns) =
     fresh v (g ! nat n) @ fresh_frontier g (v \<union> set (fresh v (g ! nat n))) ns"

text \<open>\<open>closer g s x y\<close>: \<open>x\<close> is at most as many hops from \<open>s\<close> as \<open>y\<close> is.\<close>

definition closer :: "AdjacencyList \<Rightarrow> NI \<Rightarrow> NI \<Rightarrow> NI \<Rightarrow> bool" where
  "closer g s x y \<longleftrightarrow> (\<forall>m. (s, y) \<in> arcsU g ^^ m \<longrightarrow> (\<exists>m'\<le>m. (s, x) \<in> arcsU g ^^ m'))"



text \<open>The same scan over the flat list of arcs; used to reason about the two nested loops.\<close>

fun scan :: "(NI \<times> NI) list \<Rightarrow> PathEnd list \<Rightarrow> error + (NI + PathEnd list)" where
  "scan [] paths = Inr (Inr paths)"
| "scan ((u, v) # rest) paths =
     (case at paths v of
        Inl e \<Rightarrow> Inl e
      | Inr p \<Rightarrow>
          if From p \<ge> 0 then Inr (Inl v)
          else scan rest (paths[nat v := p\<lparr>From := u\<rparr>]))"

section \<open>Basic facts\<close>

lemma at_Inr_iff: "at xs i = Inr x \<longleftrightarrow> 0 \<le> i \<and> i < int (length xs) \<and> x = xs ! nat i"
  by (auto simp: at_def)

lemma at_in_range: "0 \<le> i \<Longrightarrow> i < int (length xs) \<Longrightarrow> at xs i = Inr (xs ! nat i)"
  by (simp add: at_def)

lemma in_set_arcs_from:
  "(u, v) \<in> set (arcs_from fr g) \<longleftrightarrow>
     fr \<le> u \<and> u < fr + int (length g) \<and> v \<in> To ` set (g ! nat (u - fr))"
proof (induction g arbitrary: fr)
  case Nil
  show ?case by simp
next
  case (Cons hs rest)
  show ?case
  proof (cases "u = fr")
    case True
    then show ?thesis using Cons.IH [of "fr + 1"] by auto
  next
    case False
    have "(u, v) \<in> set (arcs_from fr (hs # rest)) \<longleftrightarrow> (u, v) \<in> set (arcs_from (fr + 1) rest)"
      using False by auto
    also have "\<dots> \<longleftrightarrow> fr + 1 \<le> u \<and> u < fr + 1 + int (length rest)
                  \<and> v \<in> To ` set (rest ! nat (u - (fr + 1)))"
      by (rule Cons.IH)
    also have "\<dots> \<longleftrightarrow> fr \<le> u \<and> u < fr + int (length (hs # rest))
                  \<and> v \<in> To ` set ((hs # rest) ! nat (u - fr))"
    proof (cases "fr + 1 \<le> u")
      case True
      then have "nat (u - fr) = Suc (nat (u - (fr + 1)))" by simp
      then have "(hs # rest) ! nat (u - fr) = rest ! nat (u - (fr + 1))" by simp
      moreover have "u < fr + 1 + int (length rest) \<longleftrightarrow> u < fr + int (length (hs # rest))"
        by auto
      ultimately show ?thesis using True by auto
    next
      case False2: False
      then show ?thesis using False by simp
    qed
    finally show ?thesis .
  qed
qed

lemma set_arc_list: "set (arc_list g) = arcs g"
  by (auto simp: arc_list_def arcs_def in_set_arcs_from)

lemma BoundsOk_arcs: "BoundsOk g \<Longrightarrow> (u, v) \<in> arcs g \<Longrightarrow> 0 \<le> v \<and> v < int (length g)"
proof -
  assume b: "BoundsOk g" and a: "(u, v) \<in> arcs g"
  from a have u: "0 \<le> u" "u < int (length g)" and v: "v \<in> To ` set (g ! nat u)"
    by (simp_all add: arcs_def)
  from u have "g ! nat u \<in> set g" by (simp add: nat_less_iff)
  with b v show ?thesis unfolding BoundsOk_def by blast
qed

lemma arcs_source: "(u, v) \<in> arcs g \<Longrightarrow> 0 \<le> u \<and> u < int (length g)"
  by (simp add: arcs_def)

section \<open>Correctness of \<open>FromList\<close>\<close>

lemma scan_arcs:
  "scan (map (\<lambda>h. (fr, To h)) hs @ rest) paths =
     (case FromList_arcs fr hs paths of Inr (Inr p') \<Rightarrow> scan rest p' | r \<Rightarrow> r)"
  by (induction hs arbitrary: paths) (auto split: sum.splits)

lemma FromList_nodes_scan: "FromList_nodes fr g paths = scan (arcs_from fr g) paths"
  by (induction g arbitrary: fr paths) (auto simp: scan_arcs split: sum.splits)

lemma scan_append:
  "scan (xs @ ys) p = (case scan xs p of Inr (Inr p') \<Rightarrow> scan ys p' | r \<Rightarrow> r)"
  by (induction xs p rule: scan.induct) (auto split: sum.splits)

lemma scan_ok:
  assumes "\<forall>(u, v) \<in> set as. 0 \<le> u \<and> 0 \<le> v \<and> v < int (length p)"
    and "distinct (map snd as)"
    and "\<forall>(u, v) \<in> set as. From (p ! nat v) < 0"
  shows "\<exists>p'. scan as p = Inr (Inr p') \<and> length p' = length p
           \<and> (\<forall>(u, v) \<in> set as. From (p' ! nat v) = u)
           \<and> (\<forall>i < length p. int i \<notin> snd ` set as \<longrightarrow> p' ! i = p ! i)"
  using assms
proof (induction as arbitrary: p)
  case Nil
  show ?case by simp
next
  case (Cons a as)
  obtain u v where a: "a = (u, v)" by (cases a)
  let ?p = "p[nat v := (p ! nat v)\<lparr>From := u\<rparr>]"
  from Cons.prems a have v: "0 \<le> v" "v < int (length p)" and u: "0 \<le> u"
    and neg: "From (p ! nat v) < 0" and vnotin: "v \<notin> snd ` set as"
    by auto
  have 1: "\<forall>(u, v) \<in> set as. 0 \<le> u \<and> 0 \<le> v \<and> v < int (length ?p)"
    using Cons.prems(1) by auto
  have 2: "distinct (map snd as)" using Cons.prems(2) by simp
  have 3: "\<forall>(u', v') \<in> set as. From (?p ! nat v') < 0"
  proof (clarify)
    fix u' v' assume m: "(u', v') \<in> set as"
    then have "v' \<noteq> v" using vnotin by force
    moreover have "0 \<le> v'" using Cons.prems(1) m by auto
    ultimately have "nat v' \<noteq> nat v" using v by simp
    then have "?p ! nat v' = p ! nat v'" by simp
    then show "From (?p ! nat v') < 0" using Cons.prems(3) m by auto
  qed
  from Cons.IH [OF 1 2 3] obtain p' where p':
    "scan as ?p = Inr (Inr p')" "length p' = length ?p"
    "\<forall>(u, v) \<in> set as. From (p' ! nat v) = u"
    "\<forall>i < length ?p. int i \<notin> snd ` set as \<longrightarrow> p' ! i = ?p ! i"
    by blast
  have s: "scan (a # as) p = Inr (Inr p')"
    using a v neg p'(1) by (simp add: at_def)
  have "p' ! nat v = ?p ! nat v" using p'(4) v vnotin by simp
  then have f: "From (p' ! nat v) = u" using v by simp
  have k: "\<forall>i < length p. int i \<notin> snd ` set (a # as) \<longrightarrow> p' ! i = p ! i"
  proof (intro allI impI)
    fix i assume i: "i < length p" "int i \<notin> snd ` set (a # as)"
    then have "int i \<noteq> v" "int i \<notin> snd ` set as" using a by auto
    then have "p' ! i = ?p ! i" "i \<noteq> nat v" using p'(4) i(1) v(1) by auto
    then show "p' ! i = p ! i" by simp
  qed
  show ?case using s p'(2,3) f k a by auto
qed

lemma scan_conflict:
  assumes "\<forall>(u, v) \<in> set xs. 0 \<le> u \<and> 0 \<le> v \<and> v < int (length p)"
    and "distinct (map snd xs)"
    and "\<forall>(u, v) \<in> set xs. From (p ! nat v) < 0"
    and "v \<in> snd ` set xs"
  shows "scan (xs @ (u, v) # ys) p = Inr (Inl v)"
proof -
  from scan_ok [OF assms(1-3)] obtain p' where p':
    "scan xs p = Inr (Inr p')" "length p' = length p"
    "\<forall>(u, v) \<in> set xs. From (p' ! nat v) = u"
    by blast
  from assms(4) obtain u' where m: "(u', v) \<in> set xs" by force
  then have "From (p' ! nat v) = u'" "0 \<le> u'" "0 \<le> v" "v < int (length p')"
    using p'(2,3) assms(1) by auto
  then show ?thesis using p'(1) by (simp add: scan_append at_def)
qed

lemma BoundsOk_arc_list:
  assumes "BoundsOk g" "(u, v) \<in> set (arc_list g)"
  shows "0 \<le> u \<and> 0 \<le> v \<and> v < int (length g)"
  using assms BoundsOk_arcs [of g u v] arcs_source [of u v g] by (simp add: set_arc_list)

lemma distinct_count_le1: "distinct xs \<longleftrightarrow> (\<forall>x. count_list xs x \<le> 1)"
proof (induction xs)
  case Nil
  show ?case by simp
next
  case (Cons a xs)
  show ?case
  proof
    assume d: "distinct (a # xs)"
    then have "\<forall>x. count_list xs x \<le> 1" "count_list xs a = 0" using Cons by auto
    then show "\<forall>x. count_list (a # xs) x \<le> 1" by auto
  next
    assume c: "\<forall>x. count_list (a # xs) x \<le> 1"
    have "count_list xs a = 0" using c [rule_format, of a] by simp
    then have "a \<notin> set xs" by (simp add: count_list_0_iff)
    moreover have "\<forall>x. count_list xs x \<le> 1"
    proof
      fix x show "count_list xs x \<le> 1" using c [rule_format, of x] by (simp split: if_splits)
    qed
    ultimately show "distinct (a # xs)" using Cons by simp
  qed
qed

lemma FromList_success:
  assumes b: "BoundsOk g" and d: "distinct (map snd (arc_list g))"
  shows "\<exists>f. FromList g = Inr (Some f, -1) \<and> length (Paths f) = length g
           \<and> (\<forall>(u, v) \<in> arcs g. From (Paths f ! nat v) = u)
           \<and> (\<forall>v \<in> nodes g. indegree g v = 0 \<longrightarrow> From (Paths f ! nat v) = -1)"
proof -
  let ?p = "replicate (length g) \<lparr>From = -1\<rparr>"
  have 1: "\<forall>(u, v) \<in> set (arc_list g). 0 \<le> u \<and> 0 \<le> v \<and> v < int (length ?p)"
    using BoundsOk_arc_list [OF b] by auto
  have 3: "\<forall>(u, v) \<in> set (arc_list g). From (?p ! nat v) < 0"
    using BoundsOk_arc_list [OF b] by (auto simp: nat_less_iff)
  from scan_ok [OF 1 d 3] obtain p' where p':
    "scan (arc_list g) ?p = Inr (Inr p')" "length p' = length ?p"
    "\<forall>(u, v) \<in> set (arc_list g). From (p' ! nat v) = u"
    "\<forall>i < length ?p. int i \<notin> snd ` set (arc_list g) \<longrightarrow> p' ! i = ?p ! i"
    by blast
  have r: "FromList g = Inr (Some \<lparr>Paths = p'\<rparr>, -1)"
    using p'(1) by (simp add: FromList_def FromList_nodes_scan arc_list_def)
  have z: "\<forall>v \<in> nodes g. indegree g v = 0 \<longrightarrow> From (p' ! nat v) = -1"
  proof (intro ballI impI)
    fix v assume v: "v \<in> nodes g" and i: "indegree g v = 0"
    then have "v \<notin> snd ` set (arc_list g)" by (simp add: indegree_def count_list_0_iff)
    moreover have "nat v < length g" "int (nat v) = v" using v by (auto simp: nodes_def)
    ultimately have "p' ! nat v = ?p ! nat v" using p'(4) by simp
    then show "From (p' ! nat v) = -1" using \<open>nat v < length g\<close> by simp
  qed
  show ?thesis using r p'(2,3) z by (auto simp: set_arc_list)
qed

lemma FromList_failure:
  assumes b: "BoundsOk g" and d: "\<not> distinct (map snd (arc_list g))"
  shows "\<exists>xs u v ys. arc_list g = xs @ (u, v) # ys \<and> distinct (map snd xs)
           \<and> v \<in> snd ` set xs \<and> FromList g = Inr (None, v)"
proof -
  from d obtain ts v rs where t: "v \<in> set ts" "distinct ts" "map snd (arc_list g) = ts @ v # rs"
    unfolding not_distinct_conv_prefix by blast
  from t(3) obtain xs a ys where x: "arc_list g = xs @ a # ys" "map snd xs = ts" "snd a = v"
    by (auto simp: map_eq_append_conv map_eq_Cons_conv)
  obtain u where a: "a = (u, v)" using x(3) by (cases a) auto
  let ?p = "replicate (length g) \<lparr>From = -1\<rparr>"
  have s: "set xs \<subseteq> set (arc_list g)" using x(1) by auto
  have 1: "\<forall>(u, v) \<in> set xs. 0 \<le> u \<and> 0 \<le> v \<and> v < int (length ?p)"
    using BoundsOk_arc_list [OF b] s by auto
  have 3: "\<forall>(u, v) \<in> set xs. From (?p ! nat v) < 0"
    using BoundsOk_arc_list [OF b] s by (auto simp: nat_less_iff)
  have 2: "distinct (map snd xs)" using x(2) t(2) by simp
  have 4: "v \<in> snd ` set xs" using x(2) t(1) by (metis set_map)
  have "scan (xs @ (u, v) # ys) ?p = Inr (Inl v)" by (rule scan_conflict [OF 1 2 3 4])
  then have "FromList g = Inr (None, v)"
    using x(1) a by (simp add: FromList_def FromList_nodes_scan arc_list_def)
  then show ?thesis using x(1) a 2 4 by blast
qed


text \<open>
  Claim C7. On a graph whose arc targets are all in range, \<open>FromList\<close> fails exactly when
  some node has two or more incoming arcs (parallel arcs counted separately). It then returns
  no forest and the node \<open>v\<close> of the first arc of the scan whose target was already the
  target of an earlier arc. Otherwise it returns a forest of \<open>N\<close> path ends and \<open>-1\<close>, where
  every arc \<open>(u, v)\<close> has \<open>From v = u\<close> and every node without incoming arc has \<open>From = -1\<close>.
\<close>

theorem FromList_conflict_or_forest:
  assumes "BoundsOk g"
  shows "((\<exists>v. 2 \<le> indegree g v) \<longrightarrow>
           (\<exists>xs u v ys. arc_list g = xs @ (u, v) # ys \<and> distinct (map snd xs)
              \<and> v \<in> snd ` set xs \<and> 2 \<le> indegree g v \<and> FromList g = Inr (None, v)))
       \<and> ((\<forall>v. indegree g v \<le> 1) \<longrightarrow>
           (\<exists>f. FromList g = Inr (Some f, -1) \<and> length (Paths f) = length g
              \<and> (\<forall>(u, v) \<in> arcs g. From (Paths f ! nat v) = u)
              \<and> (\<forall>v \<in> nodes g. indegree g v = 0 \<longrightarrow> From (Paths f ! nat v) = -1)))
       \<and> ((\<exists>v. FromList g = Inr (None, v)) \<longleftrightarrow> (\<exists>v. 2 \<le> indegree g v))"
proof -
  have dist: "distinct (map snd (arc_list g)) \<longleftrightarrow> (\<forall>v. indegree g v \<le> 1)"
    by (simp add: distinct_count_le1 indegree_def)
  have fail: "\<exists>xs u v ys. arc_list g = xs @ (u, v) # ys \<and> distinct (map snd xs)
              \<and> v \<in> snd ` set xs \<and> 2 \<le> indegree g v \<and> FromList g = Inr (None, v)"
    if "\<exists>v. 2 \<le> indegree g v"
  proof -
    from that obtain w where "2 \<le> indegree g w" ..
    then have "\<not> indegree g w \<le> 1" by simp
    then have "\<not> distinct (map snd (arc_list g))" unfolding dist by blast
    from FromList_failure [OF assms this] obtain xs u v ys where x:
      "arc_list g = xs @ (u, v) # ys" "distinct (map snd xs)" "v \<in> snd ` set xs"
      "FromList g = Inr (None, v)"
      by blast
    from x(3) have "v \<in> set (map snd xs)" by simp
    then have "count_list (map snd xs) v \<noteq> 0" by (simp only: count_list_0_iff) simp
    then have "1 \<le> count_list (map snd xs) v" by simp
    then have "2 \<le> indegree g v" by (simp add: indegree_def x(1))
    with x show ?thesis by blast
  qed
  have ok: "\<exists>f. FromList g = Inr (Some f, -1) \<and> length (Paths f) = length g
              \<and> (\<forall>(u, v) \<in> arcs g. From (Paths f ! nat v) = u)
              \<and> (\<forall>v \<in> nodes g. indegree g v = 0 \<longrightarrow> From (Paths f ! nat v) = -1)"
    if "\<forall>v. indegree g v \<le> 1"
    using FromList_success [OF assms] that dist by simp
  have a: "\<exists>v. 2 \<le> indegree g v" if "FromList g = Inr (None, v)" for v
  proof (rule ccontr)
    assume "\<not> (\<exists>v. 2 \<le> indegree g v)"
    then have "\<forall>v. indegree g v \<le> 1" by (metis not_less_eq_eq numeral_2_eq_2 One_nat_def)
    from ok [OF this] that show False by auto
  qed
  have b: "\<exists>v. FromList g = Inr (None, v)" if "\<exists>v. 2 \<le> indegree g v"
    using fail [OF that] by blast
  have c: "(\<exists>v. FromList g = Inr (None, v)) \<longleftrightarrow> (\<exists>v. 2 \<le> indegree g v)"
    using a b by blast
  show ?thesis
  proof (intro conjI impI)
    show "\<exists>xs u v ys. arc_list g = xs @ (u, v) # ys \<and> distinct (map snd xs)
              \<and> v \<in> snd ` set xs \<and> 2 \<le> indegree g v \<and> FromList g = Inr (None, v)"
      if "\<exists>v. 2 \<le> indegree g v" using fail [OF that] .
    show "\<exists>f. FromList g = Inr (Some f, -1) \<and> length (Paths f) = length g
              \<and> (\<forall>(u, v) \<in> arcs g. From (Paths f ! nat v) = u)
              \<and> (\<forall>v \<in> nodes g. indegree g v = 0 \<longrightarrow> From (Paths f ! nat v) = -1)"
      if "\<forall>v. indegree g v \<le> 1" using ok [OF that] .
    show "(\<exists>v. FromList g = Inr (None, v)) \<longleftrightarrow> (\<exists>v. 2 \<le> indegree g v)" by (rule c)
  qed
qed

theorem FromList_conflict_or_forest_witness:
  "BoundsOk [[\<lparr>To = 1, Label = ()\<rparr>], [], [\<lparr>To = 1, Label = ()\<rparr>]]
   \<and> 2 \<le> indegree [[\<lparr>To = 1, Label = ()\<rparr>], [], [\<lparr>To = 1, Label = ()\<rparr>]] 1
   \<and> (\<exists>v. FromList [[\<lparr>To = 1, Label = ()\<rparr>], [], [\<lparr>To = 1, Label = ()\<rparr>]] = Inr (None, v))
   \<and> BoundsOk [[\<lparr>To = 1, Label = ()\<rparr>], [\<lparr>To = 2, Label = ()\<rparr>], []]
   \<and> (\<forall>v. indegree [[\<lparr>To = 1, Label = ()\<rparr>], [\<lparr>To = 2, Label = ()\<rparr>], []] v \<le> 1)
   \<and> (\<exists>f. FromList [[\<lparr>To = 1, Label = ()\<rparr>], [\<lparr>To = 2, Label = ()\<rparr>], []] = Inr (Some f, -1))"
proof -
  let ?g = "[[\<lparr>To = 1, Label = ()\<rparr>], [], [\<lparr>To = 1, Label = ()\<rparr>]]"
  let ?h = "[[\<lparr>To = 1, Label = ()\<rparr>], [\<lparr>To = 2, Label = ()\<rparr>], []]"
  have g: "BoundsOk ?g" by (simp add: BoundsOk_def)
  have h: "BoundsOk ?h" by (simp add: BoundsOk_def)
  have ig: "2 \<le> indegree ?g 1" by (simp add: indegree_def arc_list_def)
  have ih: "\<forall>v. indegree ?h v \<le> 1" by (simp add: indegree_def arc_list_def)
  show ?thesis
    using FromList_conflict_or_forest [OF g] FromList_conflict_or_forest [OF h] g h ig ih
    by blast
qed

text \<open>
  Claim C10. \<open>FromList\<close> does not check for cycles: on every graph with arc targets in range
  in which no node has more than one incoming arc it returns a forest and \<open>-1\<close>, also when the
  graph has a directed cycle. The graph with the two arcs \<open>0 \<rightarrow> 1\<close> and \<open>1 \<rightarrow> 0\<close> is such a
  graph.
\<close>

theorem FromList_accepts_cyclic_graph:
  "(BoundsOk g \<and> (\<forall>v. indegree g v \<le> 1) \<and> \<not> acyclic (arcs g)
      \<longrightarrow> (\<exists>f. FromList g = Inr (Some f, -1)))
   \<and> \<not> acyclic (arcs [[\<lparr>To = 1, Label = ()\<rparr>], [\<lparr>To = 0, Label = ()\<rparr>]])
   \<and> FromList [[\<lparr>To = 1, Label = ()\<rparr>], [\<lparr>To = 0, Label = ()\<rparr>]]
       = Inr (Some \<lparr>Paths = [\<lparr>From = 1\<rparr>, \<lparr>From = 0\<rparr>]\<rparr>, -1)"
proof -
  let ?g = "[[\<lparr>To = 1, Label = ()\<rparr>], [\<lparr>To = 0, Label = ()\<rparr>]]"
  have 1: "BoundsOk g \<and> (\<forall>v. indegree g v \<le> 1) \<and> \<not> acyclic (arcs g)
      \<longrightarrow> (\<exists>f. FromList g = Inr (Some f, -1))"
    using FromList_success [of g] by (auto simp: distinct_count_le1 indegree_def)
  have "(0, 1) \<in> arcs ?g" "(1, 0) \<in> arcs ?g" by (simp_all add: arcs_def)
  then have "(0, 0) \<in> (arcs ?g)\<^sup>+" by (rule trancl_trans [OF r_into_trancl r_into_trancl])
  then have 2: "\<not> acyclic (arcs ?g)" unfolding acyclic_def by blast
  have 3: "FromList ?g = Inr (Some \<lparr>Paths = [\<lparr>From = 1\<rparr>, \<lparr>From = 0\<rparr>]\<rparr>, -1)"
    by (simp add: FromList_def at_def)
  show ?thesis using 1 2 3 by blast
qed

theorem FromList_accepts_cyclic_graph_witness:
  "BoundsOk [[\<lparr>To = 1, Label = ()\<rparr>], [\<lparr>To = 0, Label = ()\<rparr>]]
   \<and> (\<forall>v. indegree [[\<lparr>To = 1, Label = ()\<rparr>], [\<lparr>To = 0, Label = ()\<rparr>]] v \<le> 1)
   \<and> \<not> acyclic (arcs [[\<lparr>To = 1, Label = ()\<rparr>], [\<lparr>To = 0, Label = ()\<rparr>]])
   \<and> (\<exists>f. FromList [[\<lparr>To = 1, Label = ()\<rparr>], [\<lparr>To = 0, Label = ()\<rparr>]] = Inr (Some f, -1))"
proof -
  let ?g = "[[\<lparr>To = 1, Label = ()\<rparr>], [\<lparr>To = 0, Label = ()\<rparr>]]"
  have b: "BoundsOk ?g" by (simp add: BoundsOk_def)
  have i: "\<forall>v. indegree ?g v \<le> 1" by (simp add: indegree_def arc_list_def)
  show ?thesis using FromList_accepts_cyclic_graph [of ?g] b i by blast
qed

section \<open>Correctness of \<open>Topological\<close>\<close>

lemma nodes_eq: "nodes g = {0..<int (length g)}"
  by (auto simp: nodes_def)

lemma finite_nodes: "finite (nodes g)"
  by (simp add: nodes_eq)

lemma card_nodes: "card (nodes g) = length g"
  by (simp add: nodes_eq)

lemma finite_sub_nodes: "T \<subseteq> nodes g \<Longrightarrow> finite T"
  by (rule finite_subset [OF _ finite_nodes])

lemma card_le_nodes: "T \<subseteq> nodes g \<Longrightarrow> card T \<le> length g"
  using card_mono [OF finite_nodes, of T g] by (simp add: card_nodes)

lemma card_less_nodes: "T \<subseteq> nodes g \<Longrightarrow> n \<in> nodes g \<Longrightarrow> n \<notin> T \<Longrightarrow> card T < length g"
  using psubset_card_mono [OF finite_nodes, of T g] by (auto simp: card_nodes)

lemma drop_update_same: "k < length xs \<Longrightarrow> drop k (xs[k := v]) = v # drop (Suc k) xs"
  by (metis Cons_nth_drop_Suc drop_update_cancel length_list_update lessI nth_list_update_eq)

lemma pos_before_Cons: "pos_before L u v \<Longrightarrow> pos_before (n # L) u v"
  unfolding pos_before_def
proof -
  assume "\<exists>a b. a < b \<and> b < length L \<and> L ! a = u \<and> L ! b = v"
  then obtain a b where "a < b" "b < length L" "L ! a = u" "L ! b = v" by blast
  then have "Suc a < Suc b \<and> Suc b < length (n # L) \<and> (n # L) ! Suc a = u \<and> (n # L) ! Suc b = v"
    by simp
  then show "\<exists>a b. a < b \<and> b < length (n # L) \<and> (n # L) ! a = u \<and> (n # L) ! b = v" by blast
qed

lemma pos_before_hd: "v \<in> set L \<Longrightarrow> pos_before (n # L) n v"
  unfolding pos_before_def
proof -
  assume "v \<in> set L"
  then obtain b where "b < length L" "L ! b = v" by (auto simp: in_set_conv_nth)
  then have "0 < Suc b \<and> Suc b < length (n # L) \<and> (n # L) ! 0 = n \<and> (n # L) ! Suc b = v"
    by simp
  then show "\<exists>a b. a < b \<and> b < length (n # L) \<and> (n # L) ! a = n \<and> (n # L) ! b = v" by blast
qed

lemma pos_before_in_set: "pos_before L u v \<Longrightarrow> v \<in> set L"
  unfolding pos_before_def by auto

lemma len_cycle_the_cycle:
  "\<forall>x. cycle s = Some x \<longrightarrow> x < length (ordering s) \<Longrightarrow> len_cycle s = int (length (the_cycle s))"
  by (auto simp: len_cycle_def the_cycle_def split: option.splits)

lemma the_cycle_as_drop:
  assumes "\<forall>x. cycle s = Some x \<longrightarrow> x < length (ordering s)"
  shows "the_cycle s = drop (length (ordering s) - length (the_cycle s)) (ordering s)"
  using assms by (auto simp: the_cycle_def split: option.splits)

lemma finish_step:
  assumes inv: "topo_inv g s" and n: "n \<in> temp s"
    and succ: "\<forall>v. (n, v) \<in> arcs g \<longrightarrow> v \<in> perm s"
  shows "\<exists>ordering'. put (ordering s) (ipos s - 1) n = Inr ordering' \<and>
           topo_inv g (s\<lparr>temp := temp s - {n}, perm := insert n (perm s),
                         ipos := ipos s - 1, ordering := ordering'\<rparr>)"
proof -
  let ?L = "drop (nat (ipos s)) (ordering s)"
  from inv have len: "length (ordering s) = length g" and i: "0 \<le> ipos s" "ipos s \<le> int (length g)"
    and setL: "set ?L = perm s" and dL: "distinct ?L"
    and t: "temp s \<subseteq> nodes g" and p: "perm s \<subseteq> nodes g" and disj: "perm s \<inter> temp s = {}"
    and ord: "\<forall>u v. (u, v) \<in> arcs g \<longrightarrow> u \<in> perm s \<longrightarrow> pos_before ?L u v"
    and nc: "\<not> cycleFound s" "cycle s = None"
    by (simp_all add: topo_inv_def)
  have nn: "n \<in> nodes g" "n \<notin> perm s" using n t disj by auto
  have "card (perm s) = length ?L" using setL dL distinct_card by fastforce
  moreover have "card (perm s) < length g" using card_less_nodes [OF p nn] .
  ultimately have "length ?L < length g" by simp
  then have ipos: "1 \<le> ipos s" using len i by auto
  let ?k = "nat (ipos s - 1)"
  have k: "?k < length (ordering s)" "Suc ?k = nat (ipos s)" using ipos i len by auto
  let ?o = "(ordering s)[?k := n]"
  have put: "put (ordering s) (ipos s - 1) n = Inr ?o" using ipos i len by (simp add: put_def)
  have L': "drop ?k ?o = n # ?L" using drop_update_same [OF k(1)] k(2) by simp
  let ?s = "s\<lparr>temp := temp s - {n}, perm := insert n (perm s), ipos := ipos s - 1, ordering := ?o\<rparr>"
  have o: "\<forall>u v. (u, v) \<in> arcs g \<longrightarrow> u \<in> insert n (perm s) \<longrightarrow> pos_before (n # ?L) u v"
  proof (intro allI impI)
    fix u v assume a: "(u, v) \<in> arcs g" and u: "u \<in> insert n (perm s)"
    show "pos_before (n # ?L) u v"
    proof (cases "u = n")
      case True
      then have "v \<in> set ?L" using succ a setL by auto
      then show ?thesis using True pos_before_hd by simp
    next
      case False
      then have "pos_before ?L u v" using ord a u by auto
      then show ?thesis by (rule pos_before_Cons)
    qed
  qed
  have "topo_inv g ?s"
    unfolding topo_inv_def
    using nc len t p disj ipos i nn setL dL o L' by (auto simp: nat_diff_distrib)
  with put show ?thesis by blast
qed


lemma unwind_step:
  assumes post: "cyc_post g (insert n T) t s" and cs: "0 \<le> cycleStart s"
    and T: "insert n T \<subseteq> nodes g" "n \<notin> T" and arc: "(n, t) \<in> arcs g"
  defines "x \<equiv> int (length (ordering s)) - 1 - len_cycle s"
  shows "\<exists>ordering'. put (ordering s) x n = Inr ordering' \<and>
           cyc_post g T n (s\<lparr>ordering := ordering', cycle := Some (nat x),
                cycleStart := (if n = cycleStart s then -1 else cycleStart s)\<rparr>) \<and>
           the_cycle (s\<lparr>ordering := ordering', cycle := Some (nat x),
                cycleStart := (if n = cycleStart s then -1 else cycleStart s)\<rparr>) \<noteq> []"
proof -
  let ?c = "the_cycle s"
  from post have len: "length (ordering s) = length g"
    and cx: "\<forall>x. cycle s = Some x \<longrightarrow> x < length g"
    and bound: "length ?c + card (insert n T) \<le> length g"
    and path: "successively (\<lambda>u v. (u, v) \<in> arcs g) ?c"
    and A: "cycleStart s \<in> insert n T"
       "if ?c = [] then cycleStart s = t else hd ?c = t \<and> (last ?c, cycleStart s) \<in> arcs g"
    using cs by (auto simp: cyc_post_def)
  have "T \<subseteq> nodes g" using T(1) by simp
  then have fin: "finite T" by (rule finite_sub_nodes)
  then have cardT: "card (insert n T) = Suc (card T)" using T(2) by simp
  have lc: "len_cycle s = int (length ?c)" using len_cycle_the_cycle [of s] cx len by simp
  have x: "0 \<le> x" "x < int (length (ordering s))" "nat x = length g - 1 - length ?c"
    "int (card T) \<le> x"
    using bound cardT lc len by (auto simp: x_def)
  have sx: "Suc (nat x) = length (ordering s) - length ?c" using x bound cardT len by auto
  let ?o = "(ordering s)[nat x := n]"
  have put: "put (ordering s) x n = Inr ?o" using x by (simp add: put_def)
  let ?s = "s\<lparr>ordering := ?o, cycle := Some (nat x),
                cycleStart := (if n = cycleStart s then -1 else cycleStart s)\<rparr>"
  have "?c = drop (Suc (nat x)) (ordering s)"
    using the_cycle_as_drop [of s] cx len sx by simp
  then have c': "the_cycle ?s = n # ?c"
    using drop_update_same [of "nat x" "ordering s" n] x by (simp add: the_cycle_def)
  have path': "successively (\<lambda>u v. (u, v) \<in> arcs g) (n # ?c)"
    using path A(2) arc by (cases "the_cycle s = []") (auto simp: successively_Cons)
  have last': "(last (n # ?c), cycleStart s) \<in> arcs g"
    using A(2) arc by (cases "the_cycle s = []") auto
  have b': "length (n # ?c) + card T \<le> length g" using bound cardT by simp
  have xl: "nat x < length g" using x len by auto
  have "cyc_post g T n ?s"
    unfolding cyc_post_def c'
    using post len path' last' b' xl A(1) cs by (auto simp: cyc_post_def)
  with put c' show ?thesis by auto
qed

lemma pass_step:
  assumes post: "cyc_post g (insert n T) t s" and cs: "\<not> 0 \<le> cycleStart s"
    and T: "insert n T \<subseteq> nodes g"
  shows "cyc_post g T n s \<and> the_cycle s \<noteq> []"
proof -
  have fin: "finite (insert n T)" using T by (rule finite_sub_nodes)
  have "card T \<le> card (insert n T)" using fin by (intro card_mono) auto
  then show ?thesis using post cs by (auto simp: cyc_post_def)
qed

lemma hit_step:
  assumes inv: "topo_inv g s" and n: "n \<in> temp s" "0 \<le> n"
  shows "cyc_post g (temp s) n (s\<lparr>cycleFound := True, cycleStart := n\<rparr>)"
  using assms card_le_nodes [of "temp s" g]
  by (auto simp: topo_inv_def cyc_post_def the_cycle_def)

lemma topo_inv_not_found: "topo_inv g s \<Longrightarrow> \<not> cycleFound s"
  by (simp add: topo_inv_def)

lemma cyc_post_found: "cyc_post g T n s \<Longrightarrow> cycleFound s"
  by (simp add: cyc_post_def)

lemma topo_inv_temp: "topo_inv g s \<Longrightarrow> temp s \<subseteq> nodes g"
  by (simp add: topo_inv_def)

lemma topo_inv_enter:
  assumes "topo_inv g s" "n \<in> nodes g" "n \<notin> perm s"
  shows "topo_inv g (s\<lparr>temp := insert n (temp s)\<rparr>)"
  using assms by (auto simp: topo_inv_def)

lemma arcs_of_node:
  assumes "n \<in> nodes g"
  shows "(n, v) \<in> arcs g \<longleftrightarrow> v \<in> To ` set (g ! nat n)"
  using assms by (simp add: arcs_def nodes_def)

lemma df_correct:
  "BoundsOk g \<Longrightarrow> topo_inv g s \<Longrightarrow> n \<in> nodes g \<Longrightarrow> length g + 1 \<le> f + card (temp s) \<Longrightarrow>
     \<exists>s'. df f g n s = Inr s' \<and>
       ((topo_inv g s' \<and> temp s' = temp s \<and> perm s \<subseteq> perm s' \<and> n \<in> perm s')
        \<or> cyc_post g (temp s) n s')"
  and
  "BoundsOk g \<Longrightarrow> topo_inv g s \<Longrightarrow> n \<in> temp s \<Longrightarrow> \<forall>h\<in>set hs. (n, To h) \<in> arcs g \<Longrightarrow>
   length g + 1 \<le> f + card (temp s) \<Longrightarrow>
     \<exists>r s'. df_arcs f g n hs s = Inr (r, s') \<and>
       (if r then cyc_post g (temp s - {n}) n s' \<and> the_cycle s' \<noteq> []
        else topo_inv g s' \<and> temp s' = temp s \<and> perm s \<subseteq> perm s' \<and> To ` set hs \<subseteq> perm s')"
proof (induction f g n s and f g n hs s rule: df_df_arcs.induct)
  case (1 g n s)
  have "card (temp s) \<le> length g" using card_le_nodes [of "temp s" g] 1(2) by (simp add: topo_inv_def)
  with 1(4) show ?case by simp
next
  case (2 f g n s)
  note b = \<open>BoundsOk g\<close> and inv = \<open>topo_inv g s\<close> and n = \<open>n \<in> nodes g\<close>
  have n0: "\<not> n < 0" "0 \<le> n" "n < int (length g)" using n by (auto simp: nodes_def)
  show ?case
  proof (cases "n \<in> temp s")
    case True
    then have "df (Suc f) g n s = Inr (s\<lparr>cycleFound := True, cycleStart := n\<rparr>)"
      using n0 by simp
    moreover have "cyc_post g (temp s) n (s\<lparr>cycleFound := True, cycleStart := n\<rparr>)"
      using hit_step [OF inv True n0(2)] .
    ultimately show ?thesis by blast
  next
    case nt: False
    show ?thesis
    proof (cases "n \<in> perm s")
      case True
      then have "df (Suc f) g n s = Inr s" using n0 nt by simp
      then show ?thesis using inv True by blast
    next
      case np: False
      let ?hs = "g ! nat n"
      let ?s0 = "s\<lparr>temp := insert n (temp s)\<rparr>"
      have at: "at g n = Inr ?hs" using n0 by (simp add: at_def)
      have inv0: "topo_inv g ?s0" using topo_inv_enter [OF inv n np] .
      have n0': "n \<in> temp ?s0" by simp
      have arcs: "\<forall>h\<in>set ?hs. (n, To h) \<in> arcs g" using arcs_of_node [OF n] by blast
      have "finite (temp s)" using topo_inv_temp [OF inv] by (rule finite_sub_nodes)
      then have "card (temp ?s0) = Suc (card (temp s))" using nt by simp
      then have fuel: "length g + 1 \<le> f + card (temp ?s0)" using "2.prems"(4) by simp
      from "2.IH" [OF n0(1) nt np at b inv0 n0' arcs fuel] obtain r s1 where
        r: "df_arcs f g n ?hs ?s0 = Inr (r, s1)"
        and post: "if r then cyc_post g (temp ?s0 - {n}) n s1 \<and> the_cycle s1 \<noteq> []
           else topo_inv g s1 \<and> temp s1 = temp ?s0 \<and> perm ?s0 \<subseteq> perm s1 \<and> To ` set ?hs \<subseteq> perm s1"
        by blast
      show ?thesis
      proof (cases r)
        case True
        have "temp ?s0 - {n} = temp s" using nt by auto
        then have "cyc_post g (temp s) n s1" using post True by simp
        moreover have "df (Suc f) g n s = Inr s1" using n0 nt np at r True by simp
        ultimately show ?thesis by blast
      next
        case False
        then have inv1: "topo_inv g s1" and t1: "temp s1 = insert n (temp s)"
          and p1: "perm s \<subseteq> perm s1" and succ: "To ` set ?hs \<subseteq> perm s1"
          using post by simp_all
        have n1: "n \<in> temp s1" using t1 by simp
        have succ': "\<forall>v. (n, v) \<in> arcs g \<longrightarrow> v \<in> perm s1"
          using arcs_of_node [OF n] succ by blast
        from finish_step [OF inv1 n1 succ'] obtain ordering' where
          put: "put (ordering s1) (ipos s1 - 1) n = Inr ordering'"
          and inv': "topo_inv g (s1\<lparr>temp := temp s1 - {n}, perm := insert n (perm s1),
                         ipos := ipos s1 - 1, ordering := ordering'\<rparr>)"
          by blast
        let ?s' = "s1\<lparr>temp := temp s1 - {n}, perm := insert n (perm s1),
                         ipos := ipos s1 - 1, ordering := ordering'\<rparr>"
        have "df (Suc f) g n s = Inr ?s'" using n0 nt np at r False put by simp
        moreover have "temp ?s' = temp s" using t1 nt by auto
        moreover have "perm s \<subseteq> perm ?s'" "n \<in> perm ?s'" using p1 by auto
        ultimately show ?thesis using inv' by blast
      qed
    qed
  qed
next
  case (3 f g n s)
  then have "df_arcs f g n [] s = Inr (False, s) \<and>
       (if False then cyc_post g (temp s - {n}) n s \<and> the_cycle s \<noteq> []
        else topo_inv g s \<and> temp s = temp s \<and> perm s \<subseteq> perm s \<and> To ` set [] \<subseteq> perm s)"
    by simp
  then show ?case by blast
next
  case (4 f g n nb rest s)
  note b = \<open>BoundsOk g\<close> and inv = \<open>topo_inv g s\<close> and n = \<open>n \<in> temp s\<close>
    and fuel = \<open>length g + 1 \<le> f + card (temp s)\<close>
  have arc: "(n, To nb) \<in> arcs g" and arcs: "\<forall>h\<in>set rest. (n, To h) \<in> arcs g"
    using "4.prems"(4) by simp_all
  have t: "To nb \<in> nodes g" using BoundsOk_arcs [OF b arc] by (simp add: nodes_def)
  from "4.IH"(1) [OF b inv t fuel] obtain s1 where
    d: "df f g (To nb) s = Inr s1"
    and post: "(topo_inv g s1 \<and> temp s1 = temp s \<and> perm s \<subseteq> perm s1 \<and> To nb \<in> perm s1)
        \<or> cyc_post g (temp s) (To nb) s1"
    by blast
  show ?case
  proof (cases "cycleFound s1")
    case True
    then have "cyc_post g (temp s) (To nb) s1" using post topo_inv_not_found by blast
    moreover have ts: "temp s = insert n (temp s - {n})" using n by auto
    ultimately have cp: "cyc_post g (insert n (temp s - {n})) (To nb) s1" by simp
    have sub: "insert n (temp s - {n}) \<subseteq> nodes g" using topo_inv_temp [OF inv] ts by simp
    show ?thesis
    proof (cases "0 \<le> cycleStart s1")
      case cs: True
      let ?x = "int (length (ordering s1)) - 1 - len_cycle s1"
      from unwind_step [OF cp cs sub _ arc] obtain ordering' where
        put: "put (ordering s1) ?x n = Inr ordering'"
        and cp': "cyc_post g (temp s - {n}) n (s1\<lparr>ordering := ordering', cycle := Some (nat ?x),
                cycleStart := (if n = cycleStart s1 then -1 else cycleStart s1)\<rparr>)"
        and ne: "the_cycle (s1\<lparr>ordering := ordering', cycle := Some (nat ?x),
                cycleStart := (if n = cycleStart s1 then -1 else cycleStart s1)\<rparr>) \<noteq> []"
        by auto
      define s2 where "s2 = s1\<lparr>ordering := ordering', cycle := Some (nat ?x),
                cycleStart := (if n = cycleStart s1 then -1 else cycleStart s1)\<rparr>"
      have "df_arcs f g n (nb # rest) s = Inr (True, s2)"
        unfolding s2_def using d True cs put by (simp add: Let_def)
      moreover have "cyc_post g (temp s - {n}) n s2" "the_cycle s2 \<noteq> []"
        unfolding s2_def using cp' ne by blast+
      ultimately show ?thesis by (auto simp del: df_arcs.simps)
    next
      case cs: False
      have "df_arcs f g n (nb # rest) s = Inr (True, s1)" using d True cs by simp
      then show ?thesis using pass_step [OF cp cs sub] by (auto simp del: df_arcs.simps)
    qed
  next
    case False
    then have inv1: "topo_inv g s1" and t1: "temp s1 = temp s" and p1: "perm s \<subseteq> perm s1"
      and nb: "To nb \<in> perm s1"
      using post cyc_post_found by blast+
    have n1: "n \<in> temp s1" using n t1 by simp
    have fuel1: "length g + 1 \<le> f + card (temp s1)" using fuel t1 by simp
    from "4.IH"(2) [OF d False b inv1 n1 arcs fuel1] obtain r s' where
      r: "df_arcs f g n rest s1 = Inr (r, s')"
      and post': "if r then cyc_post g (temp s1 - {n}) n s' \<and> the_cycle s' \<noteq> []
        else topo_inv g s' \<and> temp s' = temp s1 \<and> perm s1 \<subseteq> perm s' \<and> To ` set rest \<subseteq> perm s'"
      by blast
    have e: "df_arcs f g n (nb # rest) s = Inr (r, s')" using d False r by simp
    show ?thesis
    proof (cases r)
      case True
      then have "cyc_post g (temp s - {n}) n s'" "the_cycle s' \<noteq> []"
        using post' t1 by simp_all
      then show ?thesis using e True by (auto simp del: df_arcs.simps)
    next
      case False
      then have "topo_inv g s'" "temp s' = temp s" "perm s \<subseteq> perm s'"
        "To ` set (nb # rest) \<subseteq> perm s'"
        using post' t1 p1 nb by auto
      then show ?thesis using e False by (auto simp del: df_arcs.simps)
    qed
  qed
qed

lemma closed_walk_reaches:
  "cyc \<noteq> [] \<Longrightarrow> successively (\<lambda>u v. (u, v) \<in> r) cyc \<Longrightarrow> (hd cyc, last cyc) \<in> r\<^sup>*"
proof (induction cyc)
  case Nil
  then show ?case by simp
next
  case (Cons a cyc)
  show ?case
  proof (cases "cyc = []")
    case True
    then show ?thesis by simp
  next
    case False
    then have "(a, hd cyc) \<in> r" "(hd cyc, last cyc) \<in> r\<^sup>*"
      using Cons by (auto simp: successively_Cons)
    then show ?thesis using False by (simp add: converse_rtrancl_into_rtrancl)
  qed
qed

lemma closed_walk_not_acyclic:
  assumes "cyc \<noteq> []" "successively (\<lambda>u v. (u, v) \<in> r) cyc" "(last cyc, hd cyc) \<in> r"
  shows "\<not> acyclic r"
proof -
  have "(hd cyc, hd cyc) \<in> r\<^sup>+"
    using closed_walk_reaches [OF assms(1,2)] assms(3) by (rule rtrancl_into_trancl1)
  then show ?thesis by (auto simp: acyclic_def)
qed

lemma Topological_loop_correct:
  assumes "BoundsOk g" "topo_inv g s" "temp s = {}" "set ns \<subseteq> nodes g"
  shows "\<exists>ord cyc. Topological_loop g ns s = Inr (ord, cyc) \<and>
     ((cyc = [] \<and> (\<exists>s'. topo_inv g s' \<and> perm s \<union> set ns \<subseteq> perm s' \<and> ord = ordering s'))
      \<or> (ord = [] \<and> cyc \<noteq> [] \<and> successively (\<lambda>u v. (u, v) \<in> arcs g) cyc
          \<and> (last cyc, hd cyc) \<in> arcs g))"
  using assms(2-)
proof (induction ns arbitrary: s)
  case Nil
  then show ?case by auto
next
  case (Cons n ns)
  note b = assms(1)
  have n: "n \<in> nodes g" and ns: "set ns \<subseteq> nodes g" using Cons.prems(3) by auto
  show ?case
  proof (cases "n \<in> perm s")
    case True
    from Cons.IH [OF Cons.prems(1,2) ns] obtain ord cyc where
      l: "Topological_loop g ns s = Inr (ord, cyc)"
      and p: "(cyc = [] \<and> (\<exists>s'. topo_inv g s' \<and> perm s \<union> set ns \<subseteq> perm s' \<and> ord = ordering s'))
      \<or> (ord = [] \<and> cyc \<noteq> [] \<and> successively (\<lambda>u v. (u, v) \<in> arcs g) cyc
          \<and> (last cyc, hd cyc) \<in> arcs g)"
      by blast
    have e: "Topological_loop g (n # ns) s = Inr (ord, cyc)" using True l by simp
    from p show ?thesis
    proof (elim disjE conjE exE)
      fix s' assume h: "cyc = []" "topo_inv g s'" "perm s \<union> set ns \<subseteq> perm s'" "ord = ordering s'"
      then have "perm s \<union> set (n # ns) \<subseteq> perm s'" using True by auto
      with h have "cyc = [] \<and> (\<exists>s'. topo_inv g s' \<and> perm s \<union> set (n # ns) \<subseteq> perm s' \<and> ord = ordering s')"
        by blast
      then show ?thesis using e by blast
    next
      assume "ord = []" "cyc \<noteq> []" "successively (\<lambda>u v. (u, v) \<in> arcs g) cyc"
        "(last cyc, hd cyc) \<in> arcs g"
      then show ?thesis using e by blast
    qed
  next
    case False
    have fuel: "length g + 1 \<le> Suc (length g) + card (temp s)" by simp
    from df_correct(1) [OF b Cons.prems(1) n fuel] obtain s1 where
      d: "df (Suc (length g)) g n s = Inr s1"
      and post: "(topo_inv g s1 \<and> temp s1 = temp s \<and> perm s \<subseteq> perm s1 \<and> n \<in> perm s1)
        \<or> cyc_post g (temp s) n s1"
      by blast
    show ?thesis
    proof (cases "cycleFound s1")
      case True
      then have "cyc_post g {} n s1" using post topo_inv_not_found Cons.prems(2) by auto
      then have c: "the_cycle s1 \<noteq> []" "successively (\<lambda>u v. (u, v) \<in> arcs g) (the_cycle s1)"
        "(last (the_cycle s1), hd (the_cycle s1)) \<in> arcs g"
        by (auto simp: cyc_post_def)
      have "Topological_loop g (n # ns) s = Inr ([], the_cycle s1)" using False d True by simp
      then show ?thesis using c by blast
    next
      case nf: False
      then have inv1: "topo_inv g s1" and t1: "temp s1 = {}" and p1: "perm s \<subseteq> perm s1"
        and n1: "n \<in> perm s1"
        using post cyc_post_found Cons.prems(2) by auto
      from Cons.IH [OF inv1 t1 ns] obtain ord cyc where
        l: "Topological_loop g ns s1 = Inr (ord, cyc)"
        and p: "(cyc = [] \<and> (\<exists>s'. topo_inv g s' \<and> perm s1 \<union> set ns \<subseteq> perm s' \<and> ord = ordering s'))
        \<or> (ord = [] \<and> cyc \<noteq> [] \<and> successively (\<lambda>u v. (u, v) \<in> arcs g) cyc
            \<and> (last cyc, hd cyc) \<in> arcs g)"
        by blast
      have e: "Topological_loop g (n # ns) s = Inr (ord, cyc)" using False d nf l by simp
      from p show ?thesis
      proof (elim disjE conjE exE)
        fix s' assume h: "cyc = []" "topo_inv g s'" "perm s1 \<union> set ns \<subseteq> perm s'" "ord = ordering s'"
        then have "perm s \<union> set (n # ns) \<subseteq> perm s'" using p1 n1 by auto
        with h have "cyc = [] \<and> (\<exists>s'. topo_inv g s' \<and> perm s \<union> set (n # ns) \<subseteq> perm s' \<and> ord = ordering s')"
          by blast
        then show ?thesis using e by blast
      next
        assume "ord = []" "cyc \<noteq> []" "successively (\<lambda>u v. (u, v) \<in> arcs g) cyc"
          "(last cyc, hd cyc) \<in> arcs g"
        then show ?thesis using e by blast
      qed
    qed
  qed
qed

lemma topo_inv_init:
  "topo_inv g \<lparr>ordering = replicate (length g) 0, ipos = int (length g), temp = {}, perm = {},
        cycleFound = False, cycleStart = 0, cycle = None\<rparr>"
  by (simp add: topo_inv_def)

lemma set_map_int_upt: "set (map int [0..<k]) = {n. 0 \<le> n \<and> n < int k}"
proof -
  have "n \<in> int ` {0..<k}" if "0 \<le> n" "n < int k" for n
  proof -
    have "nat n \<in> {0..<k}" "n = int (nat n)" using that by auto
    then show ?thesis by (rule_tac x = "nat n" in image_eqI) auto
  qed
  then show ?thesis by auto
qed

lemma topo_inv_complete:
  assumes inv: "topo_inv g s" and all: "nodes g \<subseteq> perm s"
  shows "length (ordering s) = length g \<and> distinct (ordering s) \<and> set (ordering s) = nodes g
     \<and> (\<forall>u v. (u, v) \<in> arcs g \<longrightarrow> pos_before (ordering s) u v)"
proof -
  let ?L = "drop (nat (ipos s)) (ordering s)"
  from inv have len: "length (ordering s) = length g" and i: "0 \<le> ipos s" "ipos s \<le> int (length g)"
    and setL: "set ?L = perm s" and dL: "distinct ?L" and p: "perm s \<subseteq> nodes g"
    and ord: "\<forall>u v. (u, v) \<in> arcs g \<longrightarrow> u \<in> perm s \<longrightarrow> pos_before ?L u v"
    by (simp_all add: topo_inv_def)
  have pn: "perm s = nodes g" using p all by auto
  have "length ?L = card (perm s)" using setL dL distinct_card by fastforce
  then have "length ?L = length g" by (simp add: pn card_nodes)
  then have "nat (ipos s) = 0" using len i by auto
  then have L: "?L = ordering s" by simp
  have "\<forall>u v. (u, v) \<in> arcs g \<longrightarrow> pos_before (ordering s) u v"
  proof (intro allI impI)
    fix u v assume a: "(u, v) \<in> arcs g"
    then have "u \<in> perm s" using arcs_source [OF a] pn by (simp add: nodes_def)
    then show "pos_before (ordering s) u v" using ord a L by simp
  qed
  then show ?thesis using len dL setL pn L by simp
qed

lemma Topological_total:
  assumes b: "BoundsOk g"
  shows "\<exists>ord cyc. Topological g = Inr (ord, cyc) \<and>
     ((cyc = [] \<and> length ord = length g \<and> distinct ord \<and> set ord = nodes g
         \<and> (\<forall>u v. (u, v) \<in> arcs g \<longrightarrow> pos_before ord u v))
      \<or> (ord = [] \<and> cyc \<noteq> [] \<and> successively (\<lambda>u v. (u, v) \<in> arcs g) cyc
          \<and> (last cyc, hd cyc) \<in> arcs g))"
proof -
  let ?s = "\<lparr>ordering = replicate (length g) 0, ipos = int (length g), temp = {}, perm = {},
        cycleFound = False, cycleStart = 0, cycle = None\<rparr>"
  let ?ns = "map int [0..<length g]"
  have ns: "set ?ns = nodes g" unfolding nodes_def by (rule set_map_int_upt)
  then have sub: "set ?ns \<subseteq> nodes g" by simp
  have t: "temp ?s = {}" by simp
  from Topological_loop_correct [OF b topo_inv_init t sub] obtain ord cyc where
    l: "Topological_loop g ?ns ?s = Inr (ord, cyc)"
    and p: "(cyc = [] \<and> (\<exists>s'. topo_inv g s' \<and> perm ?s \<union> set ?ns \<subseteq> perm s' \<and> ord = ordering s'))
      \<or> (ord = [] \<and> cyc \<noteq> [] \<and> successively (\<lambda>u v. (u, v) \<in> arcs g) cyc
          \<and> (last cyc, hd cyc) \<in> arcs g)"
    by blast
  have T: "Topological g = Inr (ord, cyc)" using l by (simp add: Topological_def)
  from p show ?thesis
  proof
    assume "cyc = [] \<and> (\<exists>s'. topo_inv g s' \<and> perm ?s \<union> set ?ns \<subseteq> perm s' \<and> ord = ordering s')"
    then obtain s' where c: "cyc = []" and inv: "topo_inv g s'" and all: "nodes g \<subseteq> perm s'"
      and o: "ord = ordering s'"
      using ns by auto
    from topo_inv_complete [OF inv all] show ?thesis using T c o by blast
  next
    assume "ord = [] \<and> cyc \<noteq> [] \<and> successively (\<lambda>u v. (u, v) \<in> arcs g) cyc
          \<and> (last cyc, hd cyc) \<in> arcs g"
    then show ?thesis using T by blast
  qed
qed

lemma pos_before_acyclic:
  assumes "distinct L"
  shows "acyclic {(u, v). pos_before L u v}"
proof -
  let ?R = "{(u, v). pos_before L u v}"
  have tr: "trans ?R"
  proof (rule transI)
    fix u v w assume "(u, v) \<in> ?R" "(v, w) \<in> ?R"
    then obtain a b b' c where 1: "a < b" "b < length L" "L ! a = u" "L ! b = v"
      and 2: "b' < c" "c < length L" "L ! b' = v" "L ! c = w"
      unfolding pos_before_def by blast
    have "b' < length L" "L ! b = L ! b'" using 1 2 by simp_all
    then have "b = b'" using assms 1(2) by (simp add: nth_eq_iff_index_eq)
    then have "a < c \<and> c < length L \<and> L ! a = u \<and> L ! c = w" using 1 2 by simp
    then show "(u, w) \<in> ?R" unfolding pos_before_def by blast
  qed
  have irr: "(u, u) \<notin> ?R" for u
  proof
    assume "(u, u) \<in> ?R"
    then obtain a b where "a < b" "b < length L" "L ! a = u" "L ! b = u"
      unfolding pos_before_def by blast
    then have "a < length L" "L ! a = L ! b" "a \<noteq> b" "b < length L" by simp_all
    then show False using assms by (simp add: nth_eq_iff_index_eq)
  qed
  show ?thesis unfolding acyclic_def trancl_id [OF tr] using irr by blast
qed

lemma Topological_cyclic:
  assumes b: "BoundsOk g" and c: "\<not> acyclic (arcs g)"
  shows "\<exists>cyc. Topological g = Inr ([], cyc) \<and> cyc \<noteq> []
           \<and> successively (\<lambda>u v. (u, v) \<in> arcs g) cyc \<and> (last cyc, hd cyc) \<in> arcs g"
proof -
  from Topological_total [OF b] obtain ord cyc where
    T: "Topological g = Inr (ord, cyc)"
    and p: "(cyc = [] \<and> length ord = length g \<and> distinct ord \<and> set ord = nodes g
         \<and> (\<forall>u v. (u, v) \<in> arcs g \<longrightarrow> pos_before ord u v))
      \<or> (ord = [] \<and> cyc \<noteq> [] \<and> successively (\<lambda>u v. (u, v) \<in> arcs g) cyc
          \<and> (last cyc, hd cyc) \<in> arcs g)"
    by blast
  have "\<not> (distinct ord \<and> (\<forall>u v. (u, v) \<in> arcs g \<longrightarrow> pos_before ord u v))"
  proof
    assume h: "distinct ord \<and> (\<forall>u v. (u, v) \<in> arcs g \<longrightarrow> pos_before ord u v)"
    then have "arcs g \<subseteq> {(u, v). pos_before ord u v}" by auto
    then have "acyclic (arcs g)" using pos_before_acyclic h acyclic_subset by blast
    with c show False ..
  qed
  with p T show ?thesis by blast
qed

text \<open>
  Claim C1. For an acyclic graph with arc targets in range, \<open>Topological\<close> returns an empty
  cycle and an ordering that lists each of the nodes \<open>0..N-1\<close> exactly once, in which for
  every arc \<open>(u, v)\<close> the node \<open>u\<close> stands at a position strictly before that of \<open>v\<close>.
\<close>

theorem Topological_acyclic:
  assumes "BoundsOk g" and "acyclic (arcs g)"
  shows "\<exists>ord. Topological g = Inr (ord, []) \<and> length ord = length g \<and> distinct ord
           \<and> set ord = {n. 0 \<le> n \<and> n < int (length g)}
           \<and> (\<forall>(u, v) \<in> arcs g. \<exists>a b. a < b \<and> b < length ord \<and> ord ! a = u \<and> ord ! b = v)"
proof -
  from Topological_total [OF assms(1)] obtain ord cyc where
    T: "Topological g = Inr (ord, cyc)"
    and p: "(cyc = [] \<and> length ord = length g \<and> distinct ord \<and> set ord = nodes g
         \<and> (\<forall>u v. (u, v) \<in> arcs g \<longrightarrow> pos_before ord u v))
      \<or> (ord = [] \<and> cyc \<noteq> [] \<and> successively (\<lambda>u v. (u, v) \<in> arcs g) cyc
          \<and> (last cyc, hd cyc) \<in> arcs g)"
    by blast
  have "\<not> (cyc \<noteq> [] \<and> successively (\<lambda>u v. (u, v) \<in> arcs g) cyc \<and> (last cyc, hd cyc) \<in> arcs g)"
    using closed_walk_not_acyclic [of cyc "arcs g"] assms(2) by blast
  with p have q: "cyc = []" "length ord = length g" "distinct ord" "set ord = nodes g"
    "\<forall>u v. (u, v) \<in> arcs g \<longrightarrow> pos_before ord u v"
    by blast+
  have "\<forall>(u, v) \<in> arcs g. \<exists>a b. a < b \<and> b < length ord \<and> ord ! a = u \<and> ord ! b = v"
    using q(5) unfolding pos_before_def by blast
  then show ?thesis using T q(1-4) unfolding nodes_def by blast
qed

theorem Topological_acyclic_witness:
  "BoundsOk [[\<lparr>To = 1, Label = ()\<rparr>, \<lparr>To = 2, Label = ()\<rparr>], [\<lparr>To = 2, Label = ()\<rparr>], []]
   \<and> acyclic (arcs [[\<lparr>To = 1, Label = ()\<rparr>, \<lparr>To = 2, Label = ()\<rparr>], [\<lparr>To = 2, Label = ()\<rparr>], []])
   \<and> Topological [[\<lparr>To = 1, Label = ()\<rparr>, \<lparr>To = 2, Label = ()\<rparr>], [\<lparr>To = 2, Label = ()\<rparr>], []]
       = Inr ([0, 1, 2], [])"
proof -
  let ?g = "[[\<lparr>To = 1, Label = ()\<rparr>, \<lparr>To = 2, Label = ()\<rparr>], [\<lparr>To = 2, Label = ()\<rparr>], []]"
  have b: "BoundsOk ?g" by (simp add: BoundsOk_def)
  have lt: "u < v" if "(u, v) \<in> arcs ?g" for u v
  proof -
    from that have u: "0 \<le> u" "u < 3" and v: "v \<in> To ` set (?g ! nat u)" by (simp_all add: arcs_def)
    from u have "u = 0 \<or> u = 1 \<or> u = 2" by arith
    then show ?thesis using v by auto
  qed
  have a: "acyclic (arcs ?g)"
    by (rule acyclicI_order [where f = uminus]) (use lt in auto)
  from Topological_acyclic [OF b a] obtain ord where
    "Topological ?g = Inr (ord, [])" by blast
  moreover have "Topological ?g = Inr ([0, 1, 2], [])" by code_simp
  ultimately show ?thesis using a b by simp
qed

text \<open>
  Claim C9, counterexample. On the graph without nodes both results are empty.
\<close>

theorem Topological_empty_graph_counterexample:
  "Topological ([] :: unit LabeledAdjacencyList) = Inr ([], [])"
  by (simp add: Topological_def)

text \<open>
  Claim C9, amended. For a graph of \<open>N\<close> nodes with arc targets in range, \<open>Topological\<close>
  returns either an ordering of length \<open>N\<close> and an empty cycle, or an empty ordering and a
  non-empty cycle. With at least one node exactly one of the two results is non-empty.
\<close>

theorem Topological_one_result:
  assumes "BoundsOk g"
  shows "\<exists>ord cyc. Topological g = Inr (ord, cyc)
           \<and> ((length ord = length g \<and> cyc = []) \<or> (ord = [] \<and> cyc \<noteq> []))
           \<and> (0 < length g \<longrightarrow> (ord \<noteq> [] \<and> cyc = []) \<or> (ord = [] \<and> cyc \<noteq> []))"
proof -
  from Topological_total [OF assms] obtain ord cyc where
    T: "Topological g = Inr (ord, cyc)"
    and p: "(cyc = [] \<and> length ord = length g \<and> distinct ord \<and> set ord = nodes g
         \<and> (\<forall>u v. (u, v) \<in> arcs g \<longrightarrow> pos_before ord u v))
      \<or> (ord = [] \<and> cyc \<noteq> [] \<and> successively (\<lambda>u v. (u, v) \<in> arcs g) cyc
          \<and> (last cyc, hd cyc) \<in> arcs g)"
    by blast
  from p have 1: "(length ord = length g \<and> cyc = []) \<or> (ord = [] \<and> cyc \<noteq> [])" by blast
  then have 2: "0 < length g \<longrightarrow> (ord \<noteq> [] \<and> cyc = []) \<or> (ord = [] \<and> cyc \<noteq> [])" by auto
  from T 1 2 show ?thesis by blast
qed

theorem Topological_one_result_witness:
  "BoundsOk [[\<lparr>To = 1, Label = ()\<rparr>], [\<lparr>To = 0, Label = ()\<rparr>]]
   \<and> 0 < length [[\<lparr>To = 1, Label = ()\<rparr>], [\<lparr>To = 0, Label = ()\<rparr>]]
   \<and> Topological [[\<lparr>To = 1, Label = ()\<rparr>], [\<lparr>To = 0, Label = ()\<rparr>]] = Inr ([], [0, 1])"
proof -
  let ?g = "[[\<lparr>To = 1, Label = ()\<rparr>], [\<lparr>To = 0, Label = ()\<rparr>]]"
  have b: "BoundsOk ?g" by (simp add: BoundsOk_def)
  from Topological_one_result [OF b] obtain ord cyc where "Topological ?g = Inr (ord, cyc)"
    by blast
  moreover have "Topological ?g = Inr ([], [0, 1])" by code_simp
  ultimately show ?thesis using b by simp
qed

section \<open>Correctness of \<open>TopologicalKahn\<close>\<close>






















lemma rotation_transpose:
  "is_transpose [[\<lparr>To = 2, Label = ()\<rparr>], [\<lparr>To = 0, Label = ()\<rparr>], [\<lparr>To = 1, Label = ()\<rparr>]]
      [[1], [2], [0]]"
proof -
  let ?g = "[[\<lparr>To = 2, Label = ()\<rparr>], [\<lparr>To = 0, Label = ()\<rparr>], [\<lparr>To = 1, Label = ()\<rparr>]]"
  have n: "nodes ?g = {0, 1, 2}" by (auto simp: nodes_def)
  show ?thesis by (simp add: is_transpose_def BoundsOkU_def n)
qed

text \<open>
  Claim C4 at the graph with the arcs \<open>0 \<rightarrow> 2\<close>, \<open>2 \<rightarrow> 1\<close> and \<open>1 \<rightarrow> 0\<close> and its transpose
  (with the arcs \<open>0 \<rightarrow> 1\<close>, \<open>1 \<rightarrow> 2\<close> and \<open>2 \<rightarrow> 0\<close>): \<open>Topological\<close> returns the cycle
  \<open>0, 2, 1\<close>, which can be walked in the graph, whereas \<open>TopologicalKahn\<close> returns the nodes
  in index order, \<open>0, 1, 2\<close>, although the graph has no arc from \<open>0\<close> to \<open>1\<close>.
\<close>

theorem TopologicalKahn_cycle_not_a_walk:
  "Topological [[\<lparr>To = 2, Label = ()\<rparr>], [\<lparr>To = 0, Label = ()\<rparr>], [\<lparr>To = 1, Label = ()\<rparr>]]
       = Inr ([], [0, 2, 1])
   \<and> TopologicalKahn [[\<lparr>To = 2, Label = ()\<rparr>], [\<lparr>To = 0, Label = ()\<rparr>], [\<lparr>To = 1, Label = ()\<rparr>]]
        [[1], [2], [0]] = Inr ([], [0, 1, 2])
   \<and> (0, 1) \<notin> arcs [[\<lparr>To = 2, Label = ()\<rparr>], [\<lparr>To = 0, Label = ()\<rparr>], [\<lparr>To = 1, Label = ()\<rparr>]]"
proof -
  let ?g = "[[\<lparr>To = 2, Label = ()\<rparr>], [\<lparr>To = 0, Label = ()\<rparr>], [\<lparr>To = 1, Label = ()\<rparr>]]"
  have "Topological ?g = Inr ([], [0, 2, 1])" by code_simp
  moreover have "TopologicalKahn ?g [[1], [2], [0]] = Inr ([], [0, 1, 2])"
    by (simp add: TopologicalKahn_def Kahn_loop.simps put_def at_def)
  moreover have "(0, 1) \<notin> arcs ?g" by (simp add: arcs_def)
  ultimately show ?thesis by simp
qed

section \<open>Correctness of \<open>BreadthFirstTraverse\<close>\<close>

lemma fresh_props: "distinct (fresh v nbs) \<and> set (fresh v nbs) = set nbs - v"
  by (induction nbs arbitrary: v) auto

lemma BFT_arcs_fresh:
  "\<forall>nb \<in> set nbs. 0 \<le> nb \<and> nb < int N \<Longrightarrow>
   BFT_arcs N visit nbs (v, e, nx) =
     Inr (v \<union> set (fresh v nbs), fold visit (fresh v nbs) e, nx @ fresh v nbs)"
  by (induction nbs arbitrary: v e nx) auto

lemma fresh_frontier_props:
  "distinct (fresh_frontier g v ns) \<and>
   set (fresh_frontier g v ns) = (\<Union>n \<in> set ns. set (g ! nat n)) - v"
proof (induction ns arbitrary: v)
  case Nil
  show ?case by simp
next
  case (Cons n ns)
  let ?new = "fresh v (g ! nat n)"
  have 1: "distinct ?new" "set ?new = set (g ! nat n) - v" using fresh_props by auto
  have 2: "distinct (fresh_frontier g (v \<union> set ?new) ns)"
    "set (fresh_frontier g (v \<union> set ?new) ns) = (\<Union>n \<in> set ns. set (g ! nat n)) - (v \<union> set ?new)"
    using Cons.IH by auto
  show ?case using 1 2 by auto
qed

lemma BoundsOkU_row:
  assumes "BoundsOkU g" "n \<in> nodes g"
  shows "\<forall>nb \<in> set (g ! nat n). 0 \<le> nb \<and> nb < int (length g)"
proof -
  have "g ! nat n \<in> set g" using assms(2) by (simp add: nodes_def nat_less_iff)
  then show ?thesis using assms(1) by (simp add: BoundsOkU_def)
qed

lemma BFT_frontier_fresh:
  assumes "BoundsOkU g"
  shows "set ns \<subseteq> nodes g \<Longrightarrow>
   BFT_frontier g visit ns (v, e, nx) =
     Inr (v \<union> set (fresh_frontier g v ns), fold visit (fresh_frontier g v ns) e,
          nx @ fresh_frontier g v ns)"
proof (induction ns arbitrary: v e nx)
  case Nil
  show ?case by simp
next
  case (Cons n ns)
  have n: "n \<in> nodes g" and ns: "set ns \<subseteq> nodes g" using Cons.prems by auto
  have at: "at g n = Inr (g ! nat n)" using n by (simp add: at_def nodes_def)
  have a: "BFT_arcs (length g) visit (g ! nat n) (v, e, nx) =
      Inr (v \<union> set (fresh v (g ! nat n)), fold visit (fresh v (g ! nat n)) e, nx @ fresh v (g ! nat n))"
    using BFT_arcs_fresh [OF BoundsOkU_row [OF assms n]] .
  show ?case using at a Cons.IH [OF ns] by (simp add: Un_assoc)
qed

lemma arcsU_of_node: "n \<in> nodes g \<Longrightarrow> set (g ! nat n) = arcsU g `` {n}"
  by (auto simp: arcsU_def nodes_def)

lemma arcsU_Image: "F \<subseteq> nodes g \<Longrightarrow> (\<Union>n \<in> F. set (g ! nat n)) = arcsU g `` F"
  using arcsU_of_node by fastforce

lemma nearer_mono: "nearer g s k \<subseteq> nearer g s (Suc k)"
  by (auto simp: nearer_def intro: less_SucI)

lemma nearer_mono': "a \<le> b \<Longrightarrow> nearer g s a \<subseteq> nearer g s b"
  unfolding nearer_def using less_le_trans by blast

lemma nearer_one: "nearer g s (Suc 0) = {s}" "nearer g s 0 = {}"
  by (auto simp: nearer_def)

lemma nearer_step:
  "nearer g s (Suc (Suc k)) = nearer g s (Suc k) \<union> arcsU g `` (nearer g s (Suc k) - nearer g s k)"
proof (intro equalityI subsetI)
  fix x assume "x \<in> nearer g s (Suc (Suc k))"
  then obtain j where j: "j < Suc (Suc k)" "(s, x) \<in> arcsU g ^^ j" by (auto simp: nearer_def)
  show "x \<in> nearer g s (Suc k) \<union> arcsU g `` (nearer g s (Suc k) - nearer g s k)"
  proof (cases "j < Suc k")
    case True
    then show ?thesis using j by (auto simp: nearer_def)
  next
    case False
    then have "j = Suc k" using j by simp
    then obtain y where y: "(s, y) \<in> arcsU g ^^ k" "(y, x) \<in> arcsU g" using j by auto
    show ?thesis
    proof (cases "y \<in> nearer g s k")
      case True
      then obtain j' where "j' < k" "(s, y) \<in> arcsU g ^^ j'" by (auto simp: nearer_def)
      then have "Suc j' < Suc k" "(s, x) \<in> arcsU g ^^ Suc j'" using y(2) by auto
      then show ?thesis unfolding nearer_def by blast
    next
      case False
      moreover have "y \<in> nearer g s (Suc k)" using y(1) by (auto simp: nearer_def)
      ultimately show ?thesis using y(2) by blast
    qed
  qed
next
  fix x assume "x \<in> nearer g s (Suc k) \<union> arcsU g `` (nearer g s (Suc k) - nearer g s k)"
  then show "x \<in> nearer g s (Suc (Suc k))"
  proof
    assume "x \<in> nearer g s (Suc k)"
    then show ?thesis using nearer_mono by blast
  next
    assume "x \<in> arcsU g `` (nearer g s (Suc k) - nearer g s k)"
    then obtain y j where "j < Suc k" "(s, y) \<in> arcsU g ^^ j" "(y, x) \<in> arcsU g"
      by (auto simp: nearer_def)
    then have "Suc j < Suc (Suc k)" "(s, x) \<in> arcsU g ^^ Suc j" by auto
    then show ?thesis unfolding nearer_def by blast
  qed
qed

lemma nearer_closed:
  assumes "nearer g s (Suc k) - nearer g s k = {}"
  shows "{x. (s, x) \<in> (arcsU g)\<^sup>*} = nearer g s (Suc k)"
proof -
  have stop: "nearer g s (Suc (k + d)) = nearer g s (Suc k)" for d
  proof (induction d)
    case 0
    show ?case by simp
  next
    case (Suc d)
    have "nearer g s k \<subseteq> nearer g s (k + d)" by (rule nearer_mono') simp
    moreover have "nearer g s (Suc k) \<subseteq> nearer g s k" using assms by blast
    ultimately have "nearer g s (Suc (k + d)) - nearer g s (k + d) = {}" using Suc.IH by blast
    then have "nearer g s (Suc (Suc (k + d))) = nearer g s (Suc (k + d))"
      using nearer_step [of g s "k + d"] by auto
    then show ?case using Suc.IH by simp
  qed
  show ?thesis
  proof (intro equalityI subsetI)
    fix x assume "x \<in> {x. (s, x) \<in> (arcsU g)\<^sup>*}"
    then obtain j where j: "(s, x) \<in> arcsU g ^^ j" by (auto simp: rtrancl_power)
    moreover have "j < Suc (k + j)" by simp
    ultimately have "x \<in> nearer g s (Suc (k + j))" unfolding nearer_def by blast
    then show "x \<in> nearer g s (Suc k)" using stop by simp
  next
    fix x assume "x \<in> nearer g s (Suc k)"
    then show "x \<in> {x. (s, x) \<in> (arcsU g)\<^sup>*}" by (auto simp: nearer_def rtrancl_power)
  qed
qed

lemma BoundsOkU_arcs: "BoundsOkU g \<Longrightarrow> (u, x) \<in> arcsU g \<Longrightarrow> x \<in> nodes g"
proof -
  assume b: "BoundsOkU g" and a: "(u, x) \<in> arcsU g"
  then have u: "u \<in> nodes g" and x: "x \<in> set (g ! nat u)" by (simp_all add: arcsU_def nodes_def)
  from BoundsOkU_row [OF b u] x show ?thesis by (simp add: nodes_def)
qed

lemma sorted_wrt_all: "(\<forall>x \<in> set xs. \<forall>y \<in> set xs. P x y) \<Longrightarrow> sorted_wrt P xs"
  by (induction xs) auto

lemma closer_layer:
  assumes "x \<in> nearer g s (Suc (Suc k))" "y \<notin> nearer g s (Suc k)"
  shows "closer g s x y"
  unfolding closer_def
proof (intro allI impI)
  fix m assume "(s, y) \<in> arcsU g ^^ m"
  then have "\<not> m < Suc k" using assms(2) unfolding nearer_def by blast
  moreover obtain m' where "m' < Suc (Suc k)" "(s, x) \<in> arcsU g ^^ m'"
    using assms(1) unfolding nearer_def by blast
  ultimately have "m' \<le> m \<and> (s, x) \<in> arcsU g ^^ m'" by simp
  then show "\<exists>m'\<le>m. (s, x) \<in> arcsU g ^^ m'" by blast
qed

lemma BFT_loop_correct:
  "BoundsOkU g \<Longrightarrow> set F \<subseteq> nodes g \<Longrightarrow> v = nearer g s (Suc k) \<Longrightarrow>
   set F = nearer g s (Suc k) - nearer g s k \<Longrightarrow>
   \<exists>rest. BFT_loop g visit F v e = Inr (fold visit rest e) \<and> distinct rest \<and> set rest \<inter> v = {} \<and>
     v \<union> set rest = {x. (s, x) \<in> (arcsU g)\<^sup>*} \<and> sorted_wrt (closer g s) rest"
proof (induction g visit F v e arbitrary: k rule: BFT_loop.induct)
  case (1 g visit F v e)
  note b = "1.prems"(1) and F = "1.prems"(2) and v = "1.prems"(3) and lev = "1.prems"(4)
  show ?case
  proof (cases "F = []")
    case True
    then have "nearer g s (Suc k) - nearer g s k = {}" using lev by simp
    then have "v = {x. (s, x) \<in> (arcsU g)\<^sup>*}" using nearer_closed v by simp
    moreover have "BFT_loop g visit F v e = Inr (fold visit [] e)"
      using True by (simp add: BFT_loop.simps)
    ultimately show ?thesis by (intro exI [of _ "[]"]) simp
  next
    case False
    let ?new = "fresh_frontier g v F"
    let ?v = "v \<union> set ?new"
    let ?e = "fold visit ?new e"
    have fr: "BFT_frontier g visit F (v, e, []) = Inr (?v, ?e, ?new)"
      using BFT_frontier_fresh [OF b F, of visit v e "[]"] by simp
    have dn: "distinct ?new" and sn: "set ?new = arcsU g `` set F - v"
      using fresh_frontier_props [of g v F] arcsU_Image [OF F] by simp_all
    have v': "?v = nearer g s (Suc (Suc k))"
      using sn nearer_step [of g s k] v lev by auto
    have lev': "set ?new = nearer g s (Suc (Suc k)) - nearer g s (Suc k)"
      using sn v' v by auto
    have new_nodes: "set ?new \<subseteq> nodes g" using sn BoundsOkU_arcs [OF b] by auto
    from "1.IH" [OF False fr refl refl b new_nodes v' lev'] obtain rest where
      r: "BFT_loop g visit ?new ?v ?e = Inr (fold visit rest ?e)"
      and dr: "distinct rest" and disj: "set rest \<inter> ?v = {}"
      and un: "?v \<union> set rest = {x. (s, x) \<in> (arcsU g)\<^sup>*}"
      and so: "sorted_wrt (closer g s) rest"
      by blast
    have step: "BFT_loop g visit F v e = BFT_loop g visit ?new ?v ?e"
      using False fr by (simp add: BFT_loop.simps [of g visit F])
    have cl: "closer g s x y" if "x \<in> set ?new" "y \<notin> v" for x y
      using closer_layer [of x g s k y] that lev' v by simp
    have "sorted_wrt (closer g s) ?new"
      using cl sn by (intro sorted_wrt_all) auto
    moreover have "\<forall>x \<in> set ?new. \<forall>y \<in> set rest. closer g s x y"
      using cl disj by auto
    ultimately have so': "sorted_wrt (closer g s) (?new @ rest)"
      using so by (simp add: sorted_wrt_append)
    have d': "distinct (?new @ rest)" using dn dr disj by auto
    have disj': "set (?new @ rest) \<inter> v = {}" using sn disj by auto
    have un': "v \<union> set (?new @ rest) = {x. (s, x) \<in> (arcsU g)\<^sup>*}" using un by auto
    have "BFT_loop g visit F v e = Inr (fold visit (?new @ rest) e)" using step r by simp
    then show ?thesis using d' disj' un' so' by blast
  qed
qed

lemma BreadthFirstTraverse_total:
  assumes b: "BoundsOkU g" and s: "0 \<le> s" "s < int (length g)"
  shows "\<exists>order. BreadthFirstTraverse g s visit e = Inr (fold visit order e) \<and>
      distinct order \<and> set order = {x. (s, x) \<in> (arcsU g)\<^sup>*} \<and> order \<noteq> [] \<and> hd order = s \<and>
      (\<forall>i j. i < j \<and> j < length order \<longrightarrow>
         (\<forall>m. (s, order ! j) \<in> arcsU g ^^ m \<longrightarrow> (\<exists>m'\<le>m. (s, order ! i) \<in> arcsU g ^^ m')))"
proof -
  have F: "set [s] \<subseteq> nodes g" using s by (simp add: nodes_def)
  have v: "{s} = nearer g s (Suc 0)" and lev: "set [s] = nearer g s (Suc 0) - nearer g s 0"
    using nearer_one [of g s] by simp_all
  from BFT_loop_correct [OF b F v lev, of visit "visit s e"] obtain rest where
    r: "BFT_loop g visit [s] {s} (visit s e) = Inr (fold visit rest (visit s e))"
    and dr: "distinct rest" and disj: "set rest \<inter> {s} = {}"
    and un: "{s} \<union> set rest = {x. (s, x) \<in> (arcsU g)\<^sup>*}"
    and so: "sorted_wrt (closer g s) rest"
    by blast
  let ?order = "s # rest"
  have 1: "BreadthFirstTraverse g s visit e = Inr (fold visit ?order e)"
    using r s by (simp add: BreadthFirstTraverse_def)
  have 2: "distinct ?order" using dr disj by simp
  have 3: "set ?order = {x. (s, x) \<in> (arcsU g)\<^sup>*}" using un by simp
  have "closer g s s y" for y unfolding closer_def by (metis le0 relpow_0_I)
  then have "sorted_wrt (closer g s) ?order" using so by simp
  then have 4: "\<forall>i j. i < j \<and> j < length ?order \<longrightarrow>
         (\<forall>m. (s, ?order ! j) \<in> arcsU g ^^ m \<longrightarrow> (\<exists>m'\<le>m. (s, ?order ! i) \<in> arcsU g ^^ m'))"
    unfolding sorted_wrt_iff_nth_less closer_def by blast
  show ?thesis using 1 2 3 4 by (intro exI [of _ ?order]) simp
qed

text \<open>
  Claim C6. On a graph with all arc targets in \<open>[0, N)\<close> and a start node \<open>s < N\<close>,
  \<open>BreadthFirstTraverse\<close> returns, and the nodes on which it calls \<open>visit\<close>, in the order of
  the calls, form a list \<open>order\<close> without repetition that contains exactly the nodes
  reachable from \<open>s\<close> and starts with \<open>s\<close>; a node is never visited before a node that is
  fewer hops from \<open>s\<close>: whenever the later of two visited nodes is reachable in \<open>m\<close> hops, the
  earlier one is reachable in at most \<open>m\<close> hops. The first part states this for any callback
  and its state, the second for the callback that records its argument.
\<close>

theorem BreadthFirstTraverse_visits:
  assumes "BoundsOkU g" and "0 \<le> s" and "s < int (length g)"
  shows "(\<exists>order. BreadthFirstTraverse g s visit e = Inr (fold visit order e) \<and>
      distinct order \<and> set order = {x. (s, x) \<in> (arcsU g)\<^sup>*} \<and> order \<noteq> [] \<and> hd order = s \<and>
      (\<forall>i j. i < j \<and> j < length order \<longrightarrow>
         (\<forall>m. (s, order ! j) \<in> arcsU g ^^ m \<longrightarrow> (\<exists>m'\<le>m. (s, order ! i) \<in> arcsU g ^^ m'))))
    \<and> (\<exists>order. BreadthFirstTraverse g s (\<lambda>n log. log @ [n]) [] = Inr order \<and>
      distinct order \<and> set order = {x. (s, x) \<in> (arcsU g)\<^sup>*} \<and> order \<noteq> [] \<and> hd order = s \<and>
      (\<forall>i j. i < j \<and> j < length order \<longrightarrow>
         (\<forall>m. (s, order ! j) \<in> arcsU g ^^ m \<longrightarrow> (\<exists>m'\<le>m. (s, order ! i) \<in> arcsU g ^^ m'))))"
proof
  show "\<exists>order. BreadthFirstTraverse g s visit e = Inr (fold visit order e) \<and>
      distinct order \<and> set order = {x. (s, x) \<in> (arcsU g)\<^sup>*} \<and> order \<noteq> [] \<and> hd order = s \<and>
      (\<forall>i j. i < j \<and> j < length order \<longrightarrow>
         (\<forall>m. (s, order ! j) \<in> arcsU g ^^ m \<longrightarrow> (\<exists>m'\<le>m. (s, order ! i) \<in> arcsU g ^^ m')))"
    by (rule BreadthFirstTraverse_total [OF assms])
next
  have log: "fold (\<lambda>n log. log @ [n]) xs ys = ys @ xs" for xs ys :: "NI list"
    by (induction xs arbitrary: ys) auto
  from BreadthFirstTraverse_total [OF assms, of "\<lambda>n log. log @ [n]" "[]"]
  show "\<exists>order. BreadthFirstTraverse g s (\<lambda>n log. log @ [n]) [] = Inr order \<and>
      distinct order \<and> set order = {x. (s, x) \<in> (arcsU g)\<^sup>*} \<and> order \<noteq> [] \<and> hd order = s \<and>
      (\<forall>i j. i < j \<and> j < length order \<longrightarrow>
         (\<forall>m. (s, order ! j) \<in> arcsU g ^^ m \<longrightarrow> (\<exists>m'\<le>m. (s, order ! i) \<in> arcsU g ^^ m')))"
    unfolding log by simp
qed

theorem BreadthFirstTraverse_visits_witness:
  "BoundsOkU [[1, 2], [2], [0], [1]] \<and> (0::int) \<le> 0 \<and> (0::int) < int (length [[1, 2], [2], [0], [1::int]])
   \<and> BreadthFirstTraverse [[1, 2], [2], [0], [1]] 0 (\<lambda>n log. log @ [n]) [] = Inr [0, 1, 2]
   \<and> set [0, 1, 2] = {x. (0, x) \<in> (arcsU [[1, 2], [2], [0], [1]])\<^sup>*}"
proof -
  let ?g = "[[1, 2], [2], [0], [1::int]]"
  have b: "BoundsOkU ?g" by (simp add: BoundsOkU_def)
  have e: "BreadthFirstTraverse ?g 0 (\<lambda>n log. log @ [n]) [] = Inr [0, 1, 2]"
    by (simp add: BreadthFirstTraverse_def BFT_loop.simps at_def)
  from BreadthFirstTraverse_visits [OF b, of 0 "\<lambda>n log. log @ [n]" "[]"] obtain order where
    "BreadthFirstTraverse ?g 0 (\<lambda>n log. log @ [n]) [] = Inr order"
    "set order = {x. (0, x) \<in> (arcsU ?g)\<^sup>*}"
    by auto
  then show ?thesis using b e by simp
qed

section \<open>Correctness of \<open>Tarjan\<close>\<close>

lemma pop_component_segment:
  "n \<notin> set seg \<Longrightarrow>
   pop_component n c (base @ n # seg) stk = Inr (c @ rev seg @ [n], base, stk - set (n # seg))"
proof (induction seg arbitrary: c stk rule: rev_induct)
  case Nil
  show ?case by (simp add: pop_component.simps [of n c "base @ [n]"])
next
  case (snoc w seg)
  have w: "w \<noteq> n" and n: "n \<notin> set seg" using snoc.prems by auto
  have l: "last (base @ n # seg @ [w]) = w" "butlast (base @ n # seg @ [w]) = base @ n # seg"
    by (simp_all add: butlast_append)
  have "pop_component n c (base @ n # seg @ [w]) stk
      = pop_component n (c @ [w]) (base @ n # seg) (stk - {w})"
    using w by (simp add: pop_component.simps [of n c "base @ n # seg @ [w]"] l)
  also have "\<dots> = Inr ((c @ [w]) @ rev seg @ [n], base, (stk - {w}) - set (n # seg))"
    by (rule snoc.IH [OF n])
  finally have "pop_component n c (base @ n # seg @ [w]) stk
      = Inr ((c @ [w]) @ rev seg @ [n], base, (stk - {w}) - set (n # seg))" .
  moreover have "(stk - {w}) - set (n # seg) = stk - set (n # seg @ [w])" by auto
  ultimately show ?case by simp
qed

lemma tj_invD:
  assumes "tj_inv g es t"
  shows "length (index t) = length g" "length (lowlink t) = length g"
    "stacked t = set (stack t)" "distinct (stack t)" "distinct (concat es)"
    "indexed t = set (stack t) \<union> set (concat es)" "set (stack t) \<inter> set (concat es) = {}"
    "indexed t \<subseteq> nodes g"
    "sorted_wrt (\<lambda>a b. idx t a < idx t b) (stack t)"
    "\<forall>w \<in> set (stack t). idx t w < xnum t \<and> low t w \<le> idx t w"
    "\<forall>k \<le> length es. closed g (set (concat (take k es)))"
  using assms unfolding tj_inv_def by blast+

lemma tj_inv_stack_indexed: "tj_inv g es t \<Longrightarrow> set (stack t) \<subseteq> indexed t"
  using tj_invD(6) by blast

lemma nat_eq_nodes: "a \<in> nodes g \<Longrightarrow> b \<in> nodes g \<Longrightarrow> nat a = nat b \<longleftrightarrow> a = b"
  by (auto simp: nodes_def)

lemma tj_inv_push:
  assumes inv: "tj_inv g es t" and n: "n \<in> nodes g" "n \<notin> indexed t"
  shows "tj_inv g es (t\<lparr>index := (index t)[nat n := xnum t], indexed := insert n (indexed t),
                         lowlink := (lowlink t)[nat n := xnum t], xnum := xnum t + 1,
                         stack := stack t @ [n], stacked := insert n (stacked t)\<rparr>)"
proof -
  let ?t = "t\<lparr>index := (index t)[nat n := xnum t], indexed := insert n (indexed t),
                         lowlink := (lowlink t)[nat n := xnum t], xnum := xnum t + 1,
                         stack := stack t @ [n], stacked := insert n (stacked t)\<rparr>"
  note d = tj_invD [OF inv]
  have len: "length (index t) = length g" "length (lowlink t) = length g"
    using d by simp_all
  have k: "nat n < length g" using n(1) by (simp add: nodes_def nat_less_iff)
  have sub: "indexed t \<subseteq> nodes g" "set (stack t) \<subseteq> indexed t"
    using d(6,8) by auto
  have other: "idx ?t w = idx t w \<and> low ?t w = low t w" if "w \<in> indexed t" for w
  proof -
    have "w \<in> nodes g" "w \<noteq> n" using that sub n by auto
    then have "nat w \<noteq> nat n" using nat_eq_nodes n(1) by blast
    then show ?thesis by simp
  qed
  have self: "idx ?t n = xnum t" "low ?t n = xnum t" using k len by simp_all
  have st: "\<forall>w \<in> set (stack t). idx t w < xnum t \<and> low t w \<le> idx t w"
    using d(10) .
  have so: "sorted_wrt (\<lambda>a b. idx t a < idx t b) (stack t)" using d(9) .
  have so': "sorted_wrt (\<lambda>a b. idx ?t a < idx ?t b) (stack t)"
  proof (rule sorted_wrt_mono_rel [OF _ so])
    fix a b assume "a \<in> set (stack t)" "b \<in> set (stack t)" "idx t a < idx t b"
    moreover from this have "idx ?t a = idx t a" "idx ?t b = idx t b" using other sub by blast+
    ultimately show "idx ?t a < idx ?t b" by simp
  qed
  have 1: "sorted_wrt (\<lambda>a b. idx ?t a < idx ?t b) (stack ?t)"
    using so' st other sub self by (auto simp: sorted_wrt_append)
  have 2: "\<forall>w \<in> set (stack ?t). idx ?t w < xnum ?t \<and> low ?t w \<le> idx ?t w"
  proof
    fix w assume "w \<in> set (stack ?t)"
    then consider "w = n" | "w \<in> set (stack t)" by auto
    then show "idx ?t w < xnum ?t \<and> low ?t w \<le> idx ?t w"
    proof cases
      case 1
      then show ?thesis using self by simp
    next
      case 2
      then have "idx t w < xnum t \<and> low t w \<le> idx t w" using st by blast
      moreover have "idx ?t w = idx t w \<and> low ?t w = low t w" using other 2 sub by blast
      ultimately show ?thesis by simp
    qed
  qed
  have 3: "n \<notin> set (stack t)" "n \<notin> set (concat es)" using d(6) n(2) by auto
  show ?thesis
    unfolding tj_inv_def
  proof (intro conjI)
    show "sorted_wrt (\<lambda>a b. idx ?t a < idx ?t b) (stack ?t)" by (rule 1)
    show "\<forall>w \<in> set (stack ?t). idx ?t w < xnum ?t \<and> low ?t w \<le> idx ?t w" by (rule 2)
    show "length (index ?t) = length g" "length (lowlink ?t) = length g" using len by simp_all
    show "stacked ?t = set (stack ?t)" using d(3) by simp
    show "distinct (stack ?t)" using d(4) 3 by simp
    show "distinct (concat es)" using d(5) .
    show "indexed ?t = set (stack ?t) \<union> set (concat es)" using d(6) by simp
    show "set (stack ?t) \<inter> set (concat es) = {}" using d(7) 3 by simp
    show "indexed ?t \<subseteq> nodes g" using d(8) n(1) by simp
    show "\<forall>k \<le> length es. closed g (set (concat (take k es)))" using d(11) .
  qed
qed

lemma tj_inv_lower:
  assumes inv: "tj_inv g es t" and p: "p \<in> set (stack t)" and l: "l \<le> idx t p"
  shows "tj_inv g es (t\<lparr>lowlink := (lowlink t)[nat p := l]\<rparr>)"
proof -
  let ?t = "t\<lparr>lowlink := (lowlink t)[nat p := l]\<rparr>"
  note d = tj_invD [OF inv]
  have pn: "p \<in> nodes g" using p d(6,8) by auto
  then have k: "nat p < length (lowlink t)" using d(2) by (simp add: nodes_def nat_less_iff)
  have "\<forall>w \<in> set (stack ?t). idx ?t w < xnum ?t \<and> low ?t w \<le> idx ?t w"
  proof
    fix w assume w: "w \<in> set (stack ?t)"
    then have b: "idx t w < xnum t \<and> low t w \<le> idx t w" using d(10) by simp
    show "idx ?t w < xnum ?t \<and> low ?t w \<le> idx ?t w"
    proof (cases "w = p")
      case True
      then show ?thesis using b l k by simp
    next
      case False
      have "w \<in> nodes g" using w d(6,8) by auto
      then have "nat w \<noteq> nat p" using False pn nat_eq_nodes by blast
      then show ?thesis using b by simp
    qed
  qed
  then show ?thesis using d unfolding tj_inv_def by simp
qed

lemma closed_Un: "closed g A \<Longrightarrow> (\<forall>u v. u \<in> B \<longrightarrow> (u, v) \<in> arcs g \<longrightarrow> v \<in> A \<union> B) \<Longrightarrow> closed g (A \<union> B)"
  unfolding closed_def by blast

lemma sorted_wrt_stack_above:
  assumes "sorted_wrt (\<lambda>a b. f a < f b) (base @ n # seg)" "v \<in> set (base @ n # seg)"
    "f n \<le> (f v :: int)"
  shows "v \<in> set (n # seg)"
proof (rule ccontr)
  assume "v \<notin> set (n # seg)"
  then have "v \<in> set base" using assms(2) by auto
  then have "f v < f n" using assms(1) by (auto simp: sorted_wrt_append)
  then show False using assms(3) by simp
qed

lemma tj_inv_emit:
  assumes inv: "tj_inv g es t" and st: "stack t = base @ n # seg"
    and A: "out_arcs g (set (n # seg)) \<subseteq> A" and lo: "low_ok t n A" and root: "low t n = idx t n"
  shows "tj_inv g (es @ [rev seg @ [n]])
           (t\<lparr>stack := base, stacked := stacked t - set (n # seg), est := e'\<rparr>)"
proof -
  let ?c = "rev seg @ [n]"
  let ?t = "t\<lparr>stack := base, stacked := stacked t - set (n # seg), est := e'\<rparr>"
  note d = tj_invD [OF inv]
  have dist: "distinct base" "distinct (n # seg)" "set base \<inter> set (n # seg) = {}"
    using d(4) st by auto
  have cl: "\<forall>u v. u \<in> set ?c \<longrightarrow> (u, v) \<in> arcs g \<longrightarrow> v \<in> set (concat es) \<union> set ?c"
  proof (intro allI impI)
    fix u v assume u: "u \<in> set ?c" and a: "(u, v) \<in> arcs g"
    then have "(u, v) \<in> A" using A by (auto simp: out_arcs_def)
    then have v: "v \<in> indexed t" "v \<in> set (stack t) \<longrightarrow> low t n \<le> idx t v"
      using lo unfolding low_ok_def by auto
    show "v \<in> set (concat es) \<union> set ?c"
    proof (cases "v \<in> set (stack t)")
      case True
      then have "idx t n \<le> idx t v" using v(2) root by simp
      then have "v \<in> set (n # seg)"
        using sorted_wrt_stack_above [of "idx t" base n seg v] d(9) st True by simp
      then show ?thesis by auto
    next
      case False
      then show ?thesis using v(1) d(6) by auto
    qed
  qed
  have closed: "\<forall>k \<le> length (es @ [?c]). closed g (set (concat (take k (es @ [?c]))))"
  proof (intro allI impI)
    fix k assume k: "k \<le> length (es @ [?c])"
    show "closed g (set (concat (take k (es @ [?c]))))"
    proof (cases "k \<le> length es")
      case True
      then show ?thesis using d(11) by simp
    next
      case False
      then have "k = Suc (length es)" using k by simp
      then have "set (concat (take k (es @ [?c]))) = set (concat es) \<union> set ?c" by simp
      moreover have "closed g (set (concat es))" using d(11) [rule_format, of "length es"] by simp
      ultimately show ?thesis using closed_Un [OF _ cl] by simp
    qed
  qed
  have so: "sorted_wrt (\<lambda>a b. idx t a < idx t b) base" using d(9) st by (simp add: sorted_wrt_append)
  show ?thesis
    unfolding tj_inv_def
  proof (intro conjI)
    show "length (index ?t) = length g" "length (lowlink ?t) = length g" using d(1,2) by simp_all
    show "stacked ?t = set (stack ?t)" using d(3) st dist by auto
    show "distinct (stack ?t)" using dist by simp
    show "distinct (concat (es @ [?c]))" using d(5,7) dist st by auto
    show "indexed ?t = set (stack ?t) \<union> set (concat (es @ [?c]))" using d(6) st by auto
    show "set (stack ?t) \<inter> set (concat (es @ [?c])) = {}" using d(7) dist st by auto
    show "indexed ?t \<subseteq> nodes g" using d(8) by simp
    show "sorted_wrt (\<lambda>a b. idx ?t a < idx ?t b) (stack ?t)" using so by simp
    show "\<forall>w \<in> set (stack ?t). idx ?t w < xnum ?t \<and> low ?t w \<le> idx ?t w" using d(10) st by simp
    show "\<forall>k \<le> length (es @ [?c]). closed g (set (concat (take k (es @ [?c]))))" by (rule closed)
  qed
qed

lemma low_ok_mono: "low_ok t p A \<Longrightarrow> B \<subseteq> A \<Longrightarrow> low_ok t p B"
  unfolding low_ok_def by blast

lemma low_ok_Un: "low_ok t p A \<Longrightarrow> low_ok t p B \<Longrightarrow> low_ok t p (A \<union> B)"
  unfolding low_ok_def by blast

lemma low_ok_lower:
  assumes "low_ok t p A" "l \<le> low t p" "nat p < length (lowlink t)"
  shows "low_ok (t\<lparr>lowlink := (lowlink t)[nat p := l]\<rparr>) p A"
  using assms unfolding low_ok_def by auto

lemma arcs_invD:
  assumes "arcs_inv g es base p seg A t"
  shows "tj_inv g es t" "stack t = base @ p # seg" "out_arcs g (set seg) \<subseteq> A" "low_ok t p A"
    "\<exists>u \<in> set (stack t). low t p = idx t u"
  using assms unfolding arcs_inv_def by blast+

lemma arcs_inv_stacked:
  assumes ai: "arcs_inv g es base p seg A t" and v: "v \<in> set (stack t)"
  shows "arcs_inv g es base p seg (insert (p, v) A)
           (if idx t v < low t p then t\<lparr>lowlink := (lowlink t)[nat p := idx t v]\<rparr> else t)"
proof -
  note inv = arcs_invD(1) [OF ai] and st = arcs_invD(2) [OF ai] and out = arcs_invD(3) [OF ai]
    and lo = arcs_invD(4) [OF ai] and M = arcs_invD(5) [OF ai]
  note d = tj_invD [OF inv]
  have p: "p \<in> set (stack t)" using st by simp
  have vi: "v \<in> indexed t" using v d(6) by auto
  have pn: "p \<in> nodes g" using p d(6,8) by auto
  then have k: "nat p < length (lowlink t)" using d(2) by (simp add: nodes_def nat_less_iff)
  have lp: "low t p \<le> idx t p" using d(10) p by simp
  show ?thesis
  proof (cases "idx t v < low t p")
    case True
    let ?t = "t\<lparr>lowlink := (lowlink t)[nat p := idx t v]\<rparr>"
    have 1: "tj_inv g es ?t" using tj_inv_lower [OF inv p, of "idx t v"] True lp by simp
    have 2: "low ?t p = idx t v" using k by simp
    have 3: "low_ok ?t p A" using low_ok_lower [OF lo _ k, of "idx t v"] True by simp
    have 4: "low_ok ?t p (insert (p, v) A)"
      using 3 2 vi unfolding low_ok_def by simp
    have 5: "\<exists>u \<in> set (stack ?t). low ?t p = idx ?t u" using v 2 by auto
    show ?thesis using True 1 4 5 st out unfolding arcs_inv_def by auto
  next
    case False
    then have "low_ok t p (insert (p, v) A)" using lo vi unfolding low_ok_def by simp
    then show ?thesis using False inv st out M unfolding arcs_inv_def by auto
  qed
qed

lemma arcs_inv_emitted:
  assumes ai: "arcs_inv g es base p seg A t" and v: "v \<in> indexed t" "v \<notin> stacked t"
  shows "arcs_inv g es base p seg (insert (p, v) A) t"
proof -
  note inv = arcs_invD(1) [OF ai] and lo = arcs_invD(4) [OF ai]
  have "v \<notin> set (stack t)" using v(2) tj_invD(3) [OF inv] by simp
  then have "low_ok t p (insert (p, v) A)" using lo v(1) unfolding low_ok_def by simp
  then show ?thesis using ai unfolding arcs_inv_def by auto
qed

lemma arcs_inv_child:
  fixes t t1 :: "'e tarjan"
  assumes ai: "arcs_inv g (comps (est t)) base p seg A t"
    and post: "sc_post g comps t v t1" and v: "v \<notin> indexed t"
  shows "\<exists>seg' A'. arcs_inv g (comps (est t1)) base p seg' A'
           (if low t1 v < low t1 p then t1\<lparr>lowlink := (lowlink t1)[nat p := low t1 v]\<rparr> else t1)
         \<and> insert (p, v) A \<subseteq> A'"
proof -
  let ?es = "comps (est t)" and ?es1 = "comps (est t1)"
  note inv = arcs_invD(1) [OF ai] and st = arcs_invD(2) [OF ai] and out = arcs_invD(3) [OF ai]
    and lo = arcs_invD(4) [OF ai] and M = arcs_invD(5) [OF ai]
  from post obtain new ext where inv1: "tj_inv g ?es1 t1" and fr: "tj_frame t t1 {}"
    and new: "?es1 = ?es @ new" and vi: "v \<in> indexed t1"
    and st1: "stack t1 = stack t @ ext"
    and ex: "if ext = [] then xnum t \<le> low t1 v
         else hd ext = v \<and> low t1 v \<noteq> idx t1 v \<and> low_ok t1 v (out_arcs g (set ext)) \<and>
              (\<exists>u \<in> set (stack t1). low t1 v = idx t1 u)"
    unfolding sc_post_def by blast
  note d = tj_invD [OF inv] and d1 = tj_invD [OF inv1]
  have p: "p \<in> set (stack t)" "p \<in> indexed t" "p \<in> set (stack t1)"
    using st st1 d(6) by auto
  have frame: "indexed t \<subseteq> indexed t1" "\<forall>w \<in> indexed t. idx t1 w = idx t w \<and> low t1 w = low t w"
    using fr unfolding tj_frame_def by auto
  have pn: "p \<in> nodes g" using p d(8) by auto
  then have k: "nat p < length (lowlink t1)" using d1(2) by (simp add: nodes_def nat_less_iff)
  have fresh: "set ext \<inter> indexed t = {}"
  proof -
    have "set ext \<inter> set (stack t) = {}" using d1(4) st1 by auto
    moreover have "set ext \<inter> set (concat ?es) = {}" using d1(7) st1 new by auto
    ultimately show ?thesis using d(6) by auto
  qed
  have lo1: "low_ok t1 p A"
    unfolding low_ok_def
  proof (clarify)
    fix w u assume "(w, u) \<in> A"
    then have u: "u \<in> indexed t" "u \<in> set (stack t) \<longrightarrow> low t p \<le> idx t u"
      using lo unfolding low_ok_def by auto
    have "low t1 p \<le> idx t1 u" if "u \<in> set (stack t1)"
    proof -
      have "u \<in> set (stack t)" using that st1 fresh u(1) by auto
      then show ?thesis using u(2) frame(2) u(1) p(2) by simp
    qed
    then show "u \<in> indexed t1 \<and> (u \<in> set (stack t1) \<longrightarrow> low t1 p \<le> idx t1 u)"
      using u(1) frame(1) by auto
  qed
  have st1': "stack t1 = base @ p # (seg @ ext)" using st st1 by simp
  have out1: "out_arcs g (set (seg @ ext)) \<subseteq> insert (p, v) A \<union> out_arcs g (set ext)"
    using out by (auto simp: out_arcs_def)
  have M1: "\<exists>u \<in> set (stack t1). low t1 p = idx t1 u"
  proof -
    from M obtain u where u: "u \<in> set (stack t)" "low t p = idx t u" by blast
    then have "u \<in> indexed t" using d(6) by auto
    then have "low t1 p = idx t1 u" using u(2) frame(2) p(2) by simp
    then show ?thesis using u(1) st1 by auto
  qed
  have lp: "low t1 p \<le> idx t1 p" "idx t p < xnum t" using d1(10) d(10) p by auto
  show ?thesis
  proof (cases "ext = []")
    case True
    then have "xnum t \<le> low t1 v" using ex by simp
    moreover have "low t1 p \<le> idx t p" using lp(1) frame(2) p(2) by simp
    ultimately have no: "\<not> low t1 v < low t1 p" using lp(2) by simp
    have "v \<notin> set (stack t1)" using v True st1 d(6) by auto
    then have "low_ok t1 p (insert (p, v) A \<union> out_arcs g (set ext))"
      using lo1 vi True unfolding low_ok_def out_arcs_def by simp
    then have "arcs_inv g ?es1 base p (seg @ ext) (insert (p, v) A \<union> out_arcs g (set ext)) t1"
      using inv1 st1' out1 M1 unfolding arcs_inv_def by blast
    then show ?thesis using no by auto
  next
    case False
    then have e: "hd ext = v" "low_ok t1 v (out_arcs g (set ext))"
      "\<exists>u \<in> set (stack t1). low t1 v = idx t1 u"
      using ex by simp_all
    have vs: "v \<in> set (stack t1)" using False e(1) st1 by (cases ext) auto
    then have lv: "low t1 v \<le> idx t1 v" using d1(10) by simp
    let ?A' = "insert (p, v) A \<union> out_arcs g (set ext)"
    have gen: "low_ok t' p ?A'"
      if "indexed t' = indexed t1" "stack t' = stack t1" "index t' = index t1"
        "low t' p \<le> low t1 p" "low t' p \<le> low t1 v" for t' :: "'e tarjan"
      unfolding low_ok_def
    proof (clarify)
      fix w u assume "(w, u) \<in> ?A'"
      then consider "(w, u) \<in> A" | "w = p \<and> u = v" | "(w, u) \<in> out_arcs g (set ext)" by auto
      then show "u \<in> indexed t' \<and> (u \<in> set (stack t') \<longrightarrow> low t' p \<le> idx t' u)"
      proof cases
        case 1
        then have "u \<in> indexed t1 \<and> (u \<in> set (stack t1) \<longrightarrow> low t1 p \<le> idx t1 u)"
          using lo1 unfolding low_ok_def by auto
        then show ?thesis using that by auto
      next
        case 2
        then show ?thesis using that vi lv by auto
      next
        case 3
        then have "u \<in> indexed t1 \<and> (u \<in> set (stack t1) \<longrightarrow> low t1 v \<le> idx t1 u)"
          using e(2) unfolding low_ok_def by auto
        then show ?thesis using that by auto
      qed
    qed
    show ?thesis
    proof (cases "low t1 v < low t1 p")
      case True
      let ?t = "t1\<lparr>lowlink := (lowlink t1)[nat p := low t1 v]\<rparr>"
      have l: "low ?t p = low t1 v" using k by simp
      have 1: "tj_inv g ?es1 ?t"
        using tj_inv_lower [OF inv1 p(3), of "low t1 v"] True lp(1) by simp
      have 2: "low_ok ?t p ?A'" using gen [of ?t] l True by simp
      have 3: "\<exists>u \<in> set (stack ?t). low ?t p = idx ?t u" using e(3) l by simp
      have "arcs_inv g ?es1 base p (seg @ ext) ?A' ?t"
        using 1 2 3 st1' out1 unfolding arcs_inv_def by simp
      then show ?thesis using True by auto
    next
      case no: False
      have 2: "low_ok t1 p ?A'" using gen [of t1] no by simp
      have "arcs_inv g ?es1 base p (seg @ ext) ?A' t1"
        using inv1 2 M1 st1' out1 unfolding arcs_inv_def by simp
      then show ?thesis using no by auto
    qed
  qed
qed

lemma tj_frame_refl: "tj_frame t t X"
  by (simp add: tj_frame_def)

lemma tj_frame_trans:
  "tj_frame t t1 X \<Longrightarrow> tj_frame t1 t2 Y \<Longrightarrow> tj_frame t t2 (X \<union> Y)"
  unfolding tj_frame_def by (auto 4 3)

lemma tj_frame_weaken: "tj_frame t t' X \<Longrightarrow> X \<subseteq> Y \<Longrightarrow> tj_frame t t' Y"
  unfolding tj_frame_def by auto

lemma tj_frame_strengthen: "tj_frame t t' X \<Longrightarrow> X \<inter> indexed t = {} \<Longrightarrow> tj_frame t t' {}"
  unfolding tj_frame_def by auto

lemma tj_frame_lower:
  assumes "indexed t \<subseteq> nodes g" "p \<in> nodes g"
  shows "tj_frame t (t\<lparr>lowlink := (lowlink t)[nat p := l]\<rparr>) {p}"
proof -
  have "nat p \<noteq> nat w" if "w \<in> indexed t - {p}" for w
    using that assms nat_eq_nodes [of w g p] by auto
  then show ?thesis unfolding tj_frame_def by simp
qed

lemma tj_frame_lower_if:
  assumes "indexed t \<subseteq> nodes g" "p \<in> nodes g"
  shows "tj_frame t (if c then t\<lparr>lowlink := (lowlink t)[nat p := l]\<rparr> else t) {p}"
  using tj_frame_lower [OF assms, of l] tj_frame_refl [of t "{p}"] by simp

lemma tj_frame_push:
  assumes "indexed t \<subseteq> nodes g" "n \<in> nodes g" "n \<notin> indexed t"
  shows "tj_frame t (t\<lparr>index := (index t)[nat n := a], indexed := insert n (indexed t),
                         lowlink := (lowlink t)[nat n := b], xnum := xnum t + 1,
                         stack := stack t @ [n], stacked := insert n (stacked t)\<rparr>) {}"
proof -
  have "nat n \<noteq> nat w" if "w \<in> indexed t" for w
    using that assms nat_eq_nodes [of w g n] by auto
  then show ?thesis unfolding tj_frame_def by auto
qed

lemma arcs_post_step:
  fixes t t1 t' :: "'e tarjan"
  assumes post: "arcs_post g comps base p A1 rest t1 t'"
    and fr: "tj_frame t t1 {p}" and new: "\<exists>new. comps (est t1) = comps (est t) @ new"
    and A: "insert (p, To nb) A \<subseteq> A1"
  shows "arcs_post g comps base p A (nb # rest) t t'"
proof -
  from post obtain seg' A' where
    1: "arcs_inv g (comps (est t')) base p seg' A' t'" "A1 \<union> (\<lambda>h. (p, To h)) ` set rest \<subseteq> A'"
    and 2: "tj_frame t1 t' {p}" and 3: "\<exists>new. comps (est t') = comps (est t1) @ new"
    unfolding arcs_post_def by blast
  have "A \<union> (\<lambda>h. (p, To h)) ` set (nb # rest) \<subseteq> A'" using 1(2) A by auto
  moreover have "tj_frame t t' {p}" using tj_frame_trans [OF fr 2] by simp
  moreover have "\<exists>new. comps (est t') = comps (est t) @ new" using new 3 by auto
  ultimately show ?thesis using 1(1) unfolding arcs_post_def by blast
qed

lemma fuel_mono:
  assumes "length g \<le> f + card (indexed t)" "indexed t \<subseteq> indexed t'" "indexed t' \<subseteq> nodes g"
  shows "length g \<le> f + card (indexed t')"
proof -
  have "card (indexed t) \<le> card (indexed t')"
    using assms(2,3) finite_sub_nodes card_mono by blast
  then show ?thesis using assms(1) by simp
qed

lemma emit_okD: "emit_ok emit comps \<Longrightarrow> emit c e = (ok, e') \<Longrightarrow> comps e' = comps e @ [c]"
  unfolding emit_ok_def by (metis snd_conv)

lemma at_node: "n \<in> nodes g \<Longrightarrow> length xs = length g \<Longrightarrow> at xs n = Inr (xs ! nat n)"
  by (simp add: at_def nodes_def)

lemma put_node: "n \<in> nodes g \<Longrightarrow> length xs = length g \<Longrightarrow> put xs n a = Inr (xs[nat n := a])"
  by (simp add: put_def nodes_def)

lemma sc_correct:
  fixes t :: "'e tarjan" and comps :: "'e \<Rightarrow> NI list list"
  shows "BoundsOk g \<Longrightarrow> emit_ok emit comps \<Longrightarrow> tj_inv g (comps (est t)) t \<Longrightarrow> n \<in> nodes g \<Longrightarrow>
     n \<notin> indexed t \<Longrightarrow> length g \<le> f + card (indexed t) \<Longrightarrow>
     \<exists>ok t'. sc f g emit n t = Inr (ok, t') \<and> (ok \<longrightarrow> sc_post g comps t n t')"
  and "BoundsOk g \<Longrightarrow> emit_ok emit comps \<Longrightarrow> (\<forall>h \<in> set hs. (p, To h) \<in> arcs g) \<Longrightarrow>
     length g \<le> f + card (indexed t) \<Longrightarrow>
     \<forall>base seg A. arcs_inv g (comps (est t)) base p seg A t \<longrightarrow>
       (\<exists>ok t'. sc_arcs f g emit p hs t = Inr (ok, t') \<and>
          (ok \<longrightarrow> arcs_post g comps base p A hs t t'))"
proof (induction f g emit n t and f g emit p hs t rule: sc_sc_arcs.induct)
  case (1 g emit n t)
  have "card (indexed t) < length g"
    using card_less_nodes [OF tj_invD(8) [OF "1.prems"(3)] "1.prems"(4,5)] .
  then show ?case using "1.prems"(6) by simp
next
  case (2 f g emit n t)
  note b = "2.prems"(1) and eo = "2.prems"(2) and inv = "2.prems"(3) and n = "2.prems"(4,5)
    and fuel = "2.prems"(6)
  note d = tj_invD [OF inv]
  let ?t1 = "t\<lparr>index := (index t)[nat n := xnum t], indexed := insert n (indexed t),
                lowlink := (lowlink t)[nat n := xnum t], xnum := xnum t + 1,
                stack := stack t @ [n], stacked := insert n (stacked t)\<rparr>"
  let ?hs = "g ! nat n"
  have p1: "put (index t) n (xnum t) = Inr ((index t)[nat n := xnum t])"
    using put_node [OF n(1) d(1)] .
  have p2: "put (lowlink t) n (xnum t) = Inr ((lowlink t)[nat n := xnum t])"
    using put_node [OF n(1) d(2)] .
  have p3: "at g n = Inr ?hs" using at_node [OF n(1) refl] .
  have inv1: "tj_inv g (comps (est t)) ?t1" using tj_inv_push [OF inv n] .
  have k: "nat n < length g" using n(1) by (simp add: nodes_def nat_less_iff)
  have self: "idx ?t1 n = xnum t" "low ?t1 n = xnum t" using k d(1,2) by simp_all
  have ai: "arcs_inv g (comps (est ?t1)) (stack t) n [] {} ?t1"
    unfolding arcs_inv_def using inv1 self by (simp add: out_arcs_def low_ok_def)
  have hs: "\<forall>h \<in> set ?hs. (n, To h) \<in> arcs g" using arcs_of_node [OF n(1)] by blast
  have "card (indexed ?t1) = Suc (card (indexed t))"
    using n(2) finite_sub_nodes [OF d(8)] by simp
  then have fuel1: "length g \<le> f + card (indexed ?t1)" using fuel by simp
  from "2.IH" [OF p1 p2 p3 b eo hs fuel1] ai obtain ok2 t2 where
    r2: "sc_arcs f g emit n ?hs ?t1 = Inr (ok2, t2)"
    and post2: "ok2 \<longrightarrow> arcs_post g comps (stack t) n {} ?hs ?t1 t2"
    by blast
  show ?case
  proof (cases ok2)
    case False
    then have "sc (Suc f) g emit n t = Inr (False, t2)" using p1 p2 p3 r2 by simp
    then show ?thesis by blast
  next
    case True
    then obtain seg' A' new2 where
      ai2: "arcs_inv g (comps (est t2)) (stack t) n seg' A' t2"
      and A': "(\<lambda>h. (n, To h)) ` set ?hs \<subseteq> A'"
      and fr2: "tj_frame ?t1 t2 {n}" and new2: "comps (est t2) = comps (est t) @ new2"
      using post2 unfolding arcs_post_def by auto
    note inv2 = arcs_invD(1) [OF ai2] and st2 = arcs_invD(2) [OF ai2]
      and out2 = arcs_invD(3) [OF ai2] and lo2 = arcs_invD(4) [OF ai2] and M2 = arcs_invD(5) [OF ai2]
    note d2 = tj_invD [OF inv2]
    have fr: "tj_frame t t2 {}"
    proof -
      have "tj_frame t t2 ({} \<union> {n})"
        using tj_frame_trans [OF tj_frame_push [OF d(8) n] fr2] .
      then show ?thesis using tj_frame_strengthen n(2) by auto
    qed
    have ni2: "n \<in> indexed t2" using st2 d2(6) by auto
    have l2: "at (lowlink t2) n = Inr (low t2 n)" using at_node [OF n(1) d2(2)] .
    have i2: "at (index t2) n = Inr (idx t2 n)" using at_node [OF n(1) d2(1)] .
    have idxn: "idx t2 n = xnum t"
      using fr2 self(1) unfolding tj_frame_def by simp
    have outn: "out_arcs g (set (n # seg')) \<subseteq> A'"
    proof
      fix a assume a: "a \<in> out_arcs g (set (n # seg'))"
      obtain w v where wv: "a = (w, v)" by (cases a)
      have 1: "(w, v) \<in> arcs g" and 2: "w = n \<or> w \<in> set seg'"
        using a wv by (auto simp: out_arcs_def)
      show "a \<in> A'"
      proof (cases "w = n")
        case True
        then have "v \<in> To ` set (g ! nat n)" using 1 arcs_of_node [OF n(1)] by blast
        then obtain h where "h \<in> set (g ! nat n)" "v = To h" by blast
        then have "(n, v) \<in> (\<lambda>h. (n, To h)) ` set (g ! nat n)" by blast
        then show ?thesis using A' wv True by blast
      next
        case False
        then have "(w, v) \<in> out_arcs g (set seg')" using 1 2 by (simp add: out_arcs_def)
        then show ?thesis using out2 wv by blast
      qed
    qed
    show ?thesis
    proof (cases "low t2 n = idx t2 n")
      case root: True
      have nseg: "n \<notin> set seg'" using d2(4) st2 by auto
      let ?c = "rev seg' @ [n]"
      have pop: "pop_component n [] (stack t2) (stacked t2)
          = Inr (?c, stack t, stacked t2 - set (n # seg'))"
        using pop_component_segment [OF nseg, of "[]" "stack t" "stacked t2"] st2 by simp
      obtain ok e' where em: "emit ?c (est t2) = (ok, e')" by (cases "emit ?c (est t2)")
      let ?t3 = "t2\<lparr>stack := stack t, stacked := stacked t2 - set (n # seg'), est := e'\<rparr>"
      have res: "sc (Suc f) g emit n t = Inr (ok, ?t3)"
        using p1 p2 p3 r2 True l2 i2 root pop em by simp
      have ce: "comps e' = comps (est t2) @ [?c]" using emit_okD [OF eo em] .
      have inv3: "tj_inv g (comps (est ?t3)) ?t3"
        using tj_inv_emit [OF inv2 st2 outn lo2 root, of e'] ce by simp
      have fr3: "tj_frame t ?t3 {}" using fr unfolding tj_frame_def by simp
      have "sc_post g comps t n ?t3"
        unfolding sc_post_def
      proof (intro conjI)
        show "tj_inv g (comps (est ?t3)) ?t3" by (rule inv3)
        show "tj_frame t ?t3 {}" by (rule fr3)
        show "\<exists>new. comps (est ?t3) = comps (est t) @ new" using ce new2 by simp
        show "n \<in> indexed ?t3" using ni2 by simp
        have "xnum t \<le> low ?t3 n" using root idxn by simp
        then show "\<exists>ext. stack ?t3 = stack t @ ext \<and>
          (if ext = [] then xnum t \<le> low ?t3 n
           else hd ext = n \<and> low ?t3 n \<noteq> idx ?t3 n \<and> low_ok ?t3 n (out_arcs g (set ext)) \<and>
                (\<exists>u \<in> set (stack ?t3). low ?t3 n = idx ?t3 u))"
          by (intro exI [of _ "[]"]) simp
      qed
      then show ?thesis using res by blast
    next
      case noroot: False
      have res: "sc (Suc f) g emit n t = Inr (True, t2)"
        using p1 p2 p3 r2 True l2 i2 noroot by simp
      have "sc_post g comps t n t2"
        unfolding sc_post_def
      proof (intro conjI)
        show "tj_inv g (comps (est t2)) t2" by (rule inv2)
        show "tj_frame t t2 {}" by (rule fr)
        show "\<exists>new. comps (est t2) = comps (est t) @ new" using new2 by simp
        show "n \<in> indexed t2" by (rule ni2)
        have "low_ok t2 n (out_arcs g (set (n # seg')))" using low_ok_mono [OF lo2 outn] .
        then show "\<exists>ext. stack t2 = stack t @ ext \<and>
          (if ext = [] then xnum t \<le> low t2 n
           else hd ext = n \<and> low t2 n \<noteq> idx t2 n \<and> low_ok t2 n (out_arcs g (set ext)) \<and>
                (\<exists>u \<in> set (stack t2). low t2 n = idx t2 u))"
          using st2 noroot M2 by (intro exI [of _ "n # seg'"]) simp
      qed
      then show ?thesis using res by blast
    qed
  qed
next
  case (3 f g emit n t)
  show ?case
  proof (intro allI impI)
    fix base seg A assume ai: "arcs_inv g (comps (est t)) base n seg A t"
    have "arcs_post g comps base n A [] t t"
      unfolding arcs_post_def using ai tj_frame_refl by auto
    then show "\<exists>ok t'. sc_arcs f g emit n [] t = Inr (ok, t') \<and>
        (ok \<longrightarrow> arcs_post g comps base n A [] t t')"
      by auto
  qed
next
  case (4 f g emit n nb rest t)
  note b = "4.prems"(1) and eo = "4.prems"(2) and fuel = "4.prems"(4)
  have arc: "(n, To nb) \<in> arcs g" and rest: "\<forall>h \<in> set rest. (n, To h) \<in> arcs g"
    using "4.prems"(3) by simp_all
  let ?v = "To nb"
  have vn: "?v \<in> nodes g" using BoundsOk_arcs [OF b arc] by (simp add: nodes_def)
  then have v0: "\<not> ?v < 0" by (simp add: nodes_def)
  have nn: "n \<in> nodes g" using arcs_source [OF arc] by (simp add: nodes_def)
  show ?case
  proof (intro allI impI)
    fix base seg A assume ai: "arcs_inv g (comps (est t)) base n seg A t"
    note inv = arcs_invD(1) [OF ai]
    note d = tj_invD [OF inv]
    show "\<exists>ok t'. sc_arcs f g emit n (nb # rest) t = Inr (ok, t') \<and>
        (ok \<longrightarrow> arcs_post g comps base n A (nb # rest) t t')"
    proof (cases "?v \<in> indexed t")
      case False
      from "4.IH"(1) [OF v0 False b eo inv vn False fuel] obtain ok1 t1 where
        r1: "sc f g emit ?v t = Inr (ok1, t1)" and post1: "ok1 \<longrightarrow> sc_post g comps t ?v t1"
        by blast
      show ?thesis
      proof (cases ok1)
        case no: False
        then have "sc_arcs f g emit n (nb # rest) t = Inr (False, t1)"
          using v0 False r1 by simp
        then show ?thesis by blast
      next
        case True
        then have post: "sc_post g comps t ?v t1" using post1 by simp
        then have inv1: "tj_inv g (comps (est t1)) t1" and fr1: "tj_frame t t1 {}"
          and new1: "\<exists>new. comps (est t1) = comps (est t) @ new"
          unfolding sc_post_def by blast+
        note d1 = tj_invD [OF inv1]
        let ?t1' = "if low t1 ?v < low t1 n then t1\<lparr>lowlink := (lowlink t1)[nat n := low t1 ?v]\<rparr>
                    else t1"
        from arcs_inv_child [OF ai post False] obtain seg1 A1 where
          ai1: "arcs_inv g (comps (est t1)) base n seg1 A1 ?t1'" and A1: "insert (n, ?v) A \<subseteq> A1"
          by blast
        have e1: "est ?t1' = est t1" "indexed ?t1' = indexed t1" by simp_all
        have l1: "at (lowlink t1) ?v = Inr (low t1 ?v)" using at_node [OF vn d1(2)] .
        have l2: "at (lowlink t1) n = Inr (low t1 n)" using at_node [OF nn d1(2)] .
        have fuel1: "length g \<le> f + card (indexed ?t1')"
          using fuel_mono [OF fuel _ d1(8)] fr1 unfolding tj_frame_def by simp
        have ai1': "arcs_inv g (comps (est ?t1')) base n seg1 A1 ?t1'" using ai1 e1(1) by (simp only:)
        have okT: "ok1 = True" using True by simp
        from "4.IH"(2) [OF v0 False r1 refl okT l1 l2 b eo rest fuel1] ai1' obtain ok t' where
          r: "sc_arcs f g emit n rest ?t1' = Inr (ok, t')"
          and post': "ok \<longrightarrow> arcs_post g comps base n A1 rest ?t1' t'"
          by blast
        have res: "sc_arcs f g emit n (nb # rest) t = Inr (ok, t')"
          using v0 False r1 True l1 l2 r by simp
        have fr: "tj_frame t ?t1' {n}"
          using tj_frame_trans [OF fr1 tj_frame_lower_if [OF d1(8) nn]] by simp
        have new: "\<exists>new. comps (est ?t1') = comps (est t) @ new" using new1 by simp
        have "arcs_post g comps base n A (nb # rest) t t'" if ok
          using arcs_post_step [where comps = comps, OF _ fr new A1] post' that by blast
        then show ?thesis using res by blast
      qed
    next
      case ind: True
      show ?thesis
      proof (cases "?v \<in> stacked t")
        case True
        then have vs: "?v \<in> set (stack t)" using d(3) by simp
        let ?t' = "if idx t ?v < low t n then t\<lparr>lowlink := (lowlink t)[nat n := idx t ?v]\<rparr> else t"
        have ai1: "arcs_inv g (comps (est ?t')) base n seg (insert (n, ?v) A) ?t'"
        proof -
          have "est ?t' = est t" by simp
          then show ?thesis using arcs_inv_stacked [OF ai vs] by (simp only:)
        qed
        have l1: "at (index t) ?v = Inr (idx t ?v)" using at_node [OF vn d(1)] .
        have l2: "at (lowlink t) n = Inr (low t n)" using at_node [OF nn d(2)] .
        have fuel1: "length g \<le> f + card (indexed ?t')" using fuel by simp
        from "4.IH"(3) [OF v0 _ True l1 l2 b eo rest fuel1] ind ai1 obtain ok t' where
          r: "sc_arcs f g emit n rest ?t' = Inr (ok, t')"
          and post': "ok \<longrightarrow> arcs_post g comps base n (insert (n, ?v) A) rest ?t' t'"
          by blast
        have res: "sc_arcs f g emit n (nb # rest) t = Inr (ok, t')"
          using v0 ind True l1 l2 r by simp
        have fr: "tj_frame t ?t' {n}" using tj_frame_lower_if [OF d(8) nn] .
        have new: "\<exists>new. comps (est ?t') = comps (est t) @ new" by simp
        have "arcs_post g comps base n A (nb # rest) t t'" if ok
          using arcs_post_step [where comps = comps, OF _ fr new subset_refl] post' that by blast
        then show ?thesis using res by blast
      next
        case False
        have ai1: "arcs_inv g (comps (est t)) base n seg (insert (n, ?v) A) t"
          using arcs_inv_emitted [OF ai ind False] .
        from "4.IH"(4) [OF v0 _ False b eo rest fuel] ind ai1 obtain ok t' where
          r: "sc_arcs f g emit n rest t = Inr (ok, t')"
          and post': "ok \<longrightarrow> arcs_post g comps base n (insert (n, ?v) A) rest t t'"
          by blast
        have res: "sc_arcs f g emit n (nb # rest) t = Inr (ok, t')"
          using v0 ind False r by simp
        have new: "\<exists>new. comps (est t) = comps (est t) @ new" by simp
        have fr: "tj_frame t t {n}" by (rule tj_frame_refl)
        have "arcs_post g comps base n A (nb # rest) t t'" if ok
          using arcs_post_step [where comps = comps, OF _ fr new subset_refl] post' that by blast
        then show ?thesis using res by blast
      qed
    qed
  qed
qed

lemma sc_continues:
  fixes t :: "'e tarjan"
  shows "(\<forall>c e. fst (emit c e)) \<Longrightarrow> \<forall>ok t'. sc f g emit n t = Inr (ok, t') \<longrightarrow> ok"
  and "(\<forall>c e. fst (emit c e)) \<Longrightarrow> \<forall>ok t'. sc_arcs f g emit p hs t = Inr (ok, t') \<longrightarrow> ok"
proof (induction f g emit n t and f g emit p hs t rule: sc_sc_arcs.induct)
  case (1 g emit n t)
  then show ?case by simp
next
  case (2 f g emit n t)
  show ?case
  proof (intro allI impI)
    fix ok t' assume r: "sc (Suc f) g emit n t = Inr (ok, t')"
    show ok
    proof (rule ccontr)
      assume "\<not> ok"
      then have ok: "ok = False" by simp
      from r show False
        using "2.IH" [OF _ _ _ "2.prems"] "2.prems" unfolding ok
        by (auto split: sum.splits bool.splits prod.splits if_splits) (metis fst_conv)+
    qed
  qed
next
  case (3 f g emit n t)
  then show ?case by simp
next
  case (4 f g emit n nb rest t)
  note al = "4.prems"
  show ?case
  proof (intro allI impI)
    fix ok t' assume r: "sc_arcs f g emit n (nb # rest) t = Inr (ok, t')"
    have v0: "\<not> To nb < 0" using r by (auto split: if_splits)
    show ok
    proof (cases "To nb \<in> indexed t")
      case False
      obtain ok1 t1 where r1: "sc f g emit (To nb) t = Inr (ok1, t1)"
        using r v0 False by (auto split: sum.splits)
      have ok1: "ok1 = True" using "4.IH"(1) [OF v0 False al] r1 by blast
      obtain lnb where l1: "at (lowlink t1) (To nb) = Inr lnb"
        using r v0 False r1 ok1 by (auto split: sum.splits)
      obtain ln where l2: "at (lowlink t1) n = Inr ln"
        using r v0 False r1 ok1 l1 by (auto split: sum.splits)
      have "sc_arcs f g emit n rest
              (if lnb < ln then t1\<lparr>lowlink := (lowlink t1)[nat n := lnb]\<rparr> else t1) = Inr (ok, t')"
        using r v0 False r1 ok1 l1 l2 by simp
      then show ?thesis using "4.IH"(2) [OF v0 False r1 refl ok1 l1 l2 al] by blast
    next
      case ind: True
      show ?thesis
      proof (cases "To nb \<in> stacked t")
        case True
        obtain inb where l1: "at (index t) (To nb) = Inr inb"
          using r v0 ind True by (auto split: sum.splits)
        obtain ln where l2: "at (lowlink t) n = Inr ln"
          using r v0 ind True l1 by (auto split: sum.splits)
        have "sc_arcs f g emit n rest
                (if inb < ln then t\<lparr>lowlink := (lowlink t)[nat n := inb]\<rparr> else t) = Inr (ok, t')"
          using r v0 ind True l1 l2 by simp
        then show ?thesis using "4.IH"(3) [OF v0 _ True l1 l2 al] ind by blast
      next
        case False
        have "sc_arcs f g emit n rest t = Inr (ok, t')" using r v0 ind False by simp
        then show ?thesis using "4.IH"(4) [OF v0 _ False al] ind by blast
      qed
    qed
  qed
qed


lemma sc_post_top:
  assumes post: "sc_post g comps t n t'" and e: "stack t = []"
  shows "stack t' = []"
proof (rule ccontr)
  assume ne: "stack t' \<noteq> []"
  from post e obtain ext where ext: "stack t' = ext"
    and c: "if ext = [] then xnum t \<le> low t' n
         else hd ext = n \<and> low t' n \<noteq> idx t' n \<and> low_ok t' n (out_arcs g (set ext)) \<and>
              (\<exists>u \<in> set (stack t'). low t' n = idx t' u)"
    unfolding sc_post_def by auto
  from post have inv: "tj_inv g (comps (est t')) t'" unfolding sc_post_def by blast
  note d = tj_invD [OF inv]
  from ne ext c have h: "hd (stack t') = n" and neq: "low t' n \<noteq> idx t' n"
    and u: "\<exists>u \<in> set (stack t'). low t' n = idx t' u" by auto
  from ne h obtain tl where st: "stack t' = n # tl" by (cases "stack t'") auto
  from u obtain u where u1: "u \<in> set (stack t')" and u2: "low t' n = idx t' u" by blast
  have "idx t' n \<le> idx t' u" using d(9) u1 unfolding st by auto
  moreover have "low t' n \<le> idx t' n" using d(10) st by simp
  ultimately show False using u2 neq by simp
qed

lemma Tarjan_loop_correct:
  fixes t :: "'e tarjan"
  assumes b: "BoundsOk g" and eo: "emit_ok emit comps"
  shows "tj_inv g (comps (est t)) t \<Longrightarrow> stack t = [] \<Longrightarrow> set ns \<subseteq> nodes g \<Longrightarrow>
     \<exists>t'. Tarjan_loop g emit ns t = Inr t' \<and>
       ((\<forall>c e. fst (emit c e)) \<longrightarrow>
          tj_inv g (comps (est t')) t' \<and> stack t' = [] \<and> set ns \<union> indexed t \<subseteq> indexed t')"
proof (induction ns arbitrary: t)
  case Nil
  then show ?case by simp
next
  case (Cons n ns)
  note inv = Cons.prems(1) and e = Cons.prems(2)
  have n: "n \<in> nodes g" and ns: "set ns \<subseteq> nodes g" using Cons.prems(3) by simp_all
  show ?case
  proof (cases "n \<in> indexed t")
    case True
    from Cons.IH [OF inv e ns] obtain t' where
      r: "Tarjan_loop g emit ns t = Inr t'"
      and p: "(\<forall>c e. fst (emit c e)) \<longrightarrow>
          tj_inv g (comps (est t')) t' \<and> stack t' = [] \<and> set ns \<union> indexed t \<subseteq> indexed t'"
      by blast
    have "Tarjan_loop g emit (n # ns) t = Inr t'" using True r by simp
    moreover have "(\<forall>c e. fst (emit c e)) \<longrightarrow>
          tj_inv g (comps (est t')) t' \<and> stack t' = [] \<and> set (n # ns) \<union> indexed t \<subseteq> indexed t'"
      using p True by auto
    ultimately show ?thesis by blast
  next
    case False
    have fuel: "length g \<le> length g + card (indexed t)" by simp
    from sc_correct(1) [OF b eo inv n False fuel] obtain ok1 t1 where
      r1: "sc (length g) g emit n t = Inr (ok1, t1)" and p1: "ok1 \<longrightarrow> sc_post g comps t n t1"
      by blast
    show ?thesis
    proof (cases ok1)
      case no: False
      then have "Tarjan_loop g emit (n # ns) t = Inr t1" using False r1 by simp
      moreover have "\<not> (\<forall>c e. fst (emit c e))" using sc_continues(1) r1 no by blast
      ultimately show ?thesis by blast
    next
      case True
      then have post: "sc_post g comps t n t1" using p1 by simp
      then have inv1: "tj_inv g (comps (est t1)) t1" and fr: "tj_frame t t1 {}"
        and n1: "n \<in> indexed t1"
        unfolding sc_post_def by blast+
      have e1: "stack t1 = []" using sc_post_top [OF post e] .
      from Cons.IH [OF inv1 e1 ns] obtain t' where
        r: "Tarjan_loop g emit ns t1 = Inr t'"
        and p: "(\<forall>c e. fst (emit c e)) \<longrightarrow>
          tj_inv g (comps (est t')) t' \<and> stack t' = [] \<and> set ns \<union> indexed t1 \<subseteq> indexed t'"
        by blast
      have "Tarjan_loop g emit (n # ns) t = Inr t'" using False r1 True r by simp
      moreover have "(\<forall>c e. fst (emit c e)) \<longrightarrow>
          tj_inv g (comps (est t')) t' \<and> stack t' = [] \<and> set (n # ns) \<union> indexed t \<subseteq> indexed t'"
        using p n1 fr unfolding tj_frame_def by auto
      ultimately show ?thesis by blast
    qed
  qed
qed

lemma Tarjan_correct:
  assumes b: "BoundsOk g" and eo: "emit_ok emit comps" and c0: "comps e = []"
  shows "\<exists>e'. Tarjan g emit e = Inr e' \<and>
     ((\<forall>c e. fst (emit c e)) \<longrightarrow>
        distinct (concat (comps e')) \<and> set (concat (comps e')) = nodes g \<and>
        (\<forall>k \<le> length (comps e'). closed g (set (concat (take k (comps e'))))))"
proof -
  let ?t0 = "\<lparr>indexed = {}, stacked = {}, index = replicate (length g) 0,
              lowlink = replicate (length g) 0, xnum = 0, stack = [], est = e\<rparr>"
  have inv0: "tj_inv g (comps (est ?t0)) ?t0"
    unfolding tj_inv_def using c0 by (simp add: closed_def)
  have ns: "set (map int [0..<length g]) \<subseteq> nodes g" using set_map_int_upt [of "length g"]
    by (simp add: nodes_def)
  from Tarjan_loop_correct [OF b eo inv0 _ ns] obtain t' where
    r: "Tarjan_loop g emit (map int [0..<length g]) ?t0 = Inr t'"
    and p: "(\<forall>c e. fst (emit c e)) \<longrightarrow>
          tj_inv g (comps (est t')) t' \<and> stack t' = [] \<and>
          set (map int [0..<length g]) \<union> indexed ?t0 \<subseteq> indexed t'"
    by auto
  have T: "Tarjan g emit e = Inr (est t')" using r by (simp add: Tarjan_def)
  have "distinct (concat (comps (est t'))) \<and> set (concat (comps (est t'))) = nodes g \<and>
        (\<forall>k \<le> length (comps (est t')). closed g (set (concat (take k (comps (est t'))))))"
    if al: "\<forall>c e. fst (emit c e)"
  proof -
    from p al have inv: "tj_inv g (comps (est t')) t'" and e: "stack t' = []"
      and sub: "set (map int [0..<length g]) \<subseteq> indexed t'" by auto
    note d = tj_invD [OF inv]
    have "nodes g \<subseteq> indexed t'" using sub set_map_int_upt [of "length g"] by (simp add: nodes_def)
    then have "indexed t' = nodes g" using d(8) by blast
    then have "set (concat (comps (est t'))) = nodes g" using d(6) e by simp
    then show ?thesis using d(5) d(11) by blast
  qed
  then show ?thesis using T by blast
qed

lemma TarjanForward_fill_rev:
  "length scc = nat k + length r \<Longrightarrow> 0 \<le> k \<Longrightarrow> lst = int (length scc) - 1 \<Longrightarrow>
     TarjanForward_fill lst k r scc = Inr (rev r @ drop (length r) scc)"
proof (induction r arbitrary: k scc)
  case Nil
  then show ?case by simp
next
  case (Cons ci r)
  have i: "lst - k = int (length r)" using Cons.prems by simp
  have lt: "length r < length scc" using Cons.prems by simp
  have p: "put scc (lst - k) ci = Inr (scc[length r := ci])"
    using i lt by (simp add: put_def)
  have "TarjanForward_fill lst (k + 1) r (scc[length r := ci])
      = Inr (rev r @ drop (length r) (scc[length r := ci]))"
    using Cons.prems by (intro Cons.IH) (simp_all add: nat_add_distrib)
  then show ?case using p drop_update_same [OF lt] by simp
qed

lemma TarjanForward_correct:
  assumes b: "BoundsOk g"
  shows "\<exists>es. Tarjan g (\<lambda>c r. (True, r @ [c])) [] = Inr es \<and> TarjanForward g = Inr (rev es) \<and>
     distinct (concat es) \<and> set (concat es) = nodes g \<and>
     (\<forall>k \<le> length es. closed g (set (concat (take k es))))"
proof -
  have eo: "emit_ok (\<lambda>c r. (True, r @ [c])) id" by (simp add: emit_ok_def)
  from Tarjan_correct [OF b eo] obtain es where
    T: "Tarjan g (\<lambda>c r. (True, r @ [c])) [] = Inr es"
    and p: "distinct (concat es) \<and> set (concat es) = nodes g \<and>
        (\<forall>k \<le> length es. closed g (set (concat (take k es))))"
    by auto
  have "TarjanForward_fill (int (length es) - 1) 0 es (replicate (length es) []) = Inr (rev es)"
    using TarjanForward_fill_rev [of "replicate (length es) []" 0 es "int (length es) - 1"]
    by simp
  then have "TarjanForward g = Inr (rev es)" using T by (simp add: TarjanForward_def)
  then show ?thesis using T p by blast
qed

lemma in_concat_block:
  assumes "x \<in> set (concat xs)"
  shows "\<exists>i < length xs. x \<in> set (xs ! i)"
proof -
  from assms obtain ys where ys: "ys \<in> set xs" "x \<in> set ys" by auto
  from ys(1) obtain i where "i < length xs" "xs ! i = ys" unfolding in_set_conv_nth by blast
  then show ?thesis using ys(2) by blast
qed

lemma concat_blocks_disjoint:
  assumes d: "distinct (concat xs)" and ij: "i < j" "j < length xs"
  shows "set (xs ! i) \<inter> set (xs ! j) = {}"
proof -
  have "concat xs = concat (take j xs) @ concat (drop j xs)"
    by (metis append_take_drop_id concat_append)
  then have dis: "set (concat (take j xs)) \<inter> set (concat (drop j xs)) = {}"
    using d by (metis distinct_append)
  have "xs ! i \<in> set (take j xs)" using ij by (metis in_set_conv_nth length_take min.absorb2 less_imp_le nth_take)
  then have 1: "set (xs ! i) \<subseteq> set (concat (take j xs))" by auto
  have "xs ! j \<in> set (drop j xs)" using ij(2) by (metis Cons_nth_drop_Suc list.set_intros(1))
  then have 2: "set (xs ! j) \<subseteq> set (concat (drop j xs))" by auto
  show ?thesis using 1 2 dis by blast
qed

lemma closed_prefixes_order:
  assumes d: "distinct (concat es)"
    and cl: "\<forall>k \<le> length es. closed g (set (concat (take k es)))"
    and ab: "a < b" "b < length es"
    and u: "u \<in> set (es ! a)" and v: "v \<in> set (es ! b)"
  shows "(u, v) \<notin> arcs g"
proof
  assume arc: "(u, v) \<in> arcs g"
  have c: "closed g (set (concat (take (Suc a) es)))" using cl ab by simp
  have "es ! a \<in> set (take (Suc a) es)" using ab
    by (metis in_set_conv_nth length_take lessI min.absorb2 less_imp_le nth_take Suc_leI less_trans)
  then have "u \<in> set (concat (take (Suc a) es))" using u by auto
  then have "v \<in> set (concat (take (Suc a) es))" using c arc unfolding closed_def by blast
  then obtain c where c: "c < Suc a" "c < length es" "v \<in> set (es ! c)"
    using in_concat_block [of v "take (Suc a) es"] by auto
  have "c < b" using c(1) ab(1) by simp
  then show False using concat_blocks_disjoint [OF d _ ab(2), of c] c(3) v by blast
qed

subsection \<open>The components are strongly connected\<close>

lemma stack_reach_appendD:
  assumes "stack_reach g (xs @ ys)"
  shows "stack_reach g xs" "stack_reach g ys" "\<forall>a \<in> set xs. \<forall>b \<in> set ys. (a, b) \<in> (arcs g)\<^sup>*"
  using assms unfolding stack_reach_def sorted_wrt_append by simp_all

lemma stack_reach_snoc:
  assumes "stack_reach g S" "\<forall>a \<in> set S. (a, n) \<in> (arcs g)\<^sup>*"
  shows "stack_reach g (S @ [n])"
  using assms unfolding stack_reach_def sorted_wrt_append by simp

lemma reach_active:
  assumes sr: "stack_reach g (base @ p # seg)" and sg: "\<forall>w \<in> set seg. (w, p) \<in> (arcs g)\<^sup>*"
    and a: "a \<in> set (base @ p # seg)"
  shows "(a, p) \<in> (arcs g)\<^sup>*"
proof -
  from a consider "a \<in> set base" | "a = p" | "a \<in> set seg" by auto
  then show ?thesis
  proof cases
    case 1
    have "\<forall>a \<in> set base. \<forall>b \<in> set (p # seg). (a, b) \<in> (arcs g)\<^sup>*"
      using stack_reach_appendD(3) [OF sr] .
    then show ?thesis using 1 by simp
  next
    case 2
    then show ?thesis by simp
  next
    case 3
    then show ?thesis using sg by simp
  qed
qed

lemma reach_above:
  assumes sr: "stack_reach g (base @ p # seg)" and w: "w \<in> set seg"
  shows "(p, w) \<in> (arcs g)\<^sup>*"
proof -
  have "stack_reach g (p # seg)" using stack_reach_appendD(2) [OF sr] .
  then show ?thesis using w unfolding stack_reach_def by simp
qed

lemma comps_sc_snoc:
  assumes cs: "comps_sc g es" and sr: "stack_reach g (base @ n # seg)"
    and sg: "\<forall>w \<in> set seg. (w, n) \<in> (arcs g)\<^sup>*"
  shows "comps_sc g (es @ [rev seg @ [n]])"
proof -
  have to_n: "(u, n) \<in> (arcs g)\<^sup>*" if "u \<in> set (rev seg @ [n])" for u
    using that sg by auto
  have from_n: "(n, v) \<in> (arcs g)\<^sup>*" if "v \<in> set (rev seg @ [n])" for v
    using that reach_above [OF sr] by auto
  have "(u, v) \<in> (arcs g)\<^sup>*" if "u \<in> set (rev seg @ [n])" "v \<in> set (rev seg @ [n])" for u v
    using to_n [OF that(1)] from_n [OF that(2)] by (rule rtrancl_trans)
  then show ?thesis using cs unfolding comps_sc_def by auto
qed

lemma arcs_inv_push:
  assumes inv: "tj_inv g es t" and n: "n \<in> nodes g" "n \<notin> indexed t"
  shows "arcs_inv g es (stack t) n [] {}
           (t\<lparr>index := (index t)[nat n := xnum t], indexed := insert n (indexed t),
              lowlink := (lowlink t)[nat n := xnum t], xnum := xnum t + 1,
              stack := stack t @ [n], stacked := insert n (stacked t)\<rparr>)"
proof -
  note d = tj_invD [OF inv]
  let ?t1 = "t\<lparr>index := (index t)[nat n := xnum t], indexed := insert n (indexed t),
                lowlink := (lowlink t)[nat n := xnum t], xnum := xnum t + 1,
                stack := stack t @ [n], stacked := insert n (stacked t)\<rparr>"
  have inv1: "tj_inv g es ?t1" using tj_inv_push [OF inv n] .
  have k: "nat n < length g" using n(1) by (simp add: nodes_def nat_less_iff)
  have self: "idx ?t1 n = xnum t" "low ?t1 n = xnum t" using k d(1,2) by simp_all
  show ?thesis
    unfolding arcs_inv_def using inv1 self by (simp add: out_arcs_def low_ok_def)
qed

lemma below_child:
  fixes t1 :: "'e tarjan"
  assumes srt: "sorted_wrt (\<lambda>a b. idx t1 a < idx t1 b) (S @ v # rest)"
    and u: "u \<in> set (S @ v # rest)" and lt: "idx t1 u < idx t1 v"
  shows "u \<in> set S"
proof (rule ccontr)
  assume "u \<notin> set S"
  then have "u = v \<or> u \<in> set rest" using u by auto
  moreover have "\<forall>b \<in> set rest. idx t1 v < idx t1 b"
    using srt unfolding sorted_wrt_append by simp
  ultimately show False using lt by auto
qed

lemma sc_reach:
  fixes t :: "'e tarjan" and comps :: "'e \<Rightarrow> NI list list"
  shows "BoundsOk g \<Longrightarrow> emit_ok emit comps \<Longrightarrow> tj_inv g (comps (est t)) t \<Longrightarrow> n \<in> nodes g \<Longrightarrow>
     n \<notin> indexed t \<Longrightarrow> length g \<le> f + card (indexed t) \<Longrightarrow>
     stack_reach g (stack t) \<Longrightarrow> comps_sc g (comps (est t)) \<Longrightarrow>
     (\<forall>a \<in> set (stack t). (a, n) \<in> (arcs g)\<^sup>*) \<Longrightarrow>
     \<forall>t'. sc f g emit n t = Inr (True, t') \<longrightarrow>
       comps_sc g (comps (est t')) \<and> stack_reach g (stack t') \<and>
       (\<forall>ext. stack t' = stack t @ ext \<longrightarrow> ext \<noteq> [] \<longrightarrow>
          (\<forall>w \<in> set ext. (w, n) \<in> (arcs g)\<^sup>*) \<and> low_reach g t' n)"
  and "BoundsOk g \<Longrightarrow> emit_ok emit comps \<Longrightarrow> (\<forall>h \<in> set hs. (p, To h) \<in> arcs g) \<Longrightarrow>
     length g \<le> f + card (indexed t) \<Longrightarrow>
     \<forall>base seg A. arcs_inv g (comps (est t)) base p seg A t \<longrightarrow>
       stack_reach g (stack t) \<longrightarrow> comps_sc g (comps (est t)) \<longrightarrow>
       (\<forall>w \<in> set seg. (w, p) \<in> (arcs g)\<^sup>*) \<longrightarrow> low_reach g t p \<longrightarrow>
       (\<forall>t'. sc_arcs f g emit p hs t = Inr (True, t') \<longrightarrow>
          comps_sc g (comps (est t')) \<and> stack_reach g (stack t') \<and>
          (\<forall>seg'. stack t' = base @ p # seg' \<longrightarrow> (\<forall>w \<in> set seg'. (w, p) \<in> (arcs g)\<^sup>*)) \<and>
          low_reach g t' p)"
proof (induction f g emit n t and f g emit p hs t rule: sc_sc_arcs.induct)
  case (1 g emit n t)
  then show ?case by simp
next
  case (2 f g emit n t)
  note b = "2.prems"(1) and eo = "2.prems"(2) and inv = "2.prems"(3) and n = "2.prems"(4,5)
    and fuel = "2.prems"(6) and sr = "2.prems"(7) and cs = "2.prems"(8) and rn = "2.prems"(9)
  note d = tj_invD [OF inv]
  let ?t1 = "t\<lparr>index := (index t)[nat n := xnum t], indexed := insert n (indexed t),
                lowlink := (lowlink t)[nat n := xnum t], xnum := xnum t + 1,
                stack := stack t @ [n], stacked := insert n (stacked t)\<rparr>"
  let ?hs = "g ! nat n"
  have p1: "put (index t) n (xnum t) = Inr ((index t)[nat n := xnum t])"
    using put_node [OF n(1) d(1)] .
  have p2: "put (lowlink t) n (xnum t) = Inr ((lowlink t)[nat n := xnum t])"
    using put_node [OF n(1) d(2)] .
  have p3: "at g n = Inr ?hs" using at_node [OF n(1) refl] .
  have ai: "arcs_inv g (comps (est ?t1)) (stack t) n [] {} ?t1"
    using arcs_inv_push [OF inv n] by simp
  have k: "nat n < length g" using n(1) by (simp add: nodes_def nat_less_iff)
  have self: "idx ?t1 n = xnum t" "low ?t1 n = xnum t" using k d(1,2) by simp_all
  have hs: "\<forall>h \<in> set ?hs. (n, To h) \<in> arcs g" using arcs_of_node [OF n(1)] by blast
  have "card (indexed ?t1) = Suc (card (indexed t))"
    using n(2) finite_sub_nodes [OF d(8)] by simp
  then have fuel1: "length g \<le> f + card (indexed ?t1)" using fuel by simp
  have sr1: "stack_reach g (stack ?t1)" using stack_reach_snoc [OF sr rn] by simp
  have cs1: "comps_sc g (comps (est ?t1))" using cs by simp
  have sg1: "\<forall>w \<in> set []. (w, n) \<in> (arcs g)\<^sup>*" by simp
  have lr1: "low_reach g ?t1 n" unfolding low_reach_def using self by auto
  show ?case
  proof (intro allI impI)
    fix t' assume r: "sc (Suc f) g emit n t = Inr (True, t')"
    from sc_correct(2) [OF b eo hs fuel1] ai obtain ok2 t2 where
      r2: "sc_arcs f g emit n ?hs ?t1 = Inr (ok2, t2)"
      and post2: "ok2 \<longrightarrow> arcs_post g comps (stack t) n {} ?hs ?t1 t2"
      by blast
    have ok2: "ok2" using r p1 p2 p3 r2 by (cases ok2) simp_all
    then have r2': "sc_arcs f g emit n ?hs ?t1 = Inr (True, t2)" using r2 by simp
    from ok2 post2 obtain seg' A' where
      ai2: "arcs_inv g (comps (est t2)) (stack t) n seg' A' t2"
      unfolding arcs_post_def by auto
    note inv2 = arcs_invD(1) [OF ai2] and st2 = arcs_invD(2) [OF ai2]
    note d2 = tj_invD [OF inv2]
    note IH = "2.IH" [OF p1 p2 p3 b eo hs fuel1, THEN spec, THEN spec, THEN spec, THEN mp, THEN mp, THEN mp, THEN mp, THEN mp, THEN spec, THEN mp]
    from IH [OF ai sr1 cs1 sg1 lr1 r2']
    have cs2: "comps_sc g (comps (est t2))" and sr2: "stack_reach g (stack t2)"
      and sg2: "\<forall>seg'. stack t2 = stack t @ n # seg' \<longrightarrow> (\<forall>w \<in> set seg'. (w, n) \<in> (arcs g)\<^sup>*)"
      and lr2: "low_reach g t2 n"
      by blast+
    have sg2': "\<forall>w \<in> set seg'. (w, n) \<in> (arcs g)\<^sup>*" using sg2 st2 by blast
    have l2: "at (lowlink t2) n = Inr (low t2 n)" using at_node [OF n(1) d2(2)] .
    have i2: "at (index t2) n = Inr (idx t2 n)" using at_node [OF n(1) d2(1)] .
    show "comps_sc g (comps (est t')) \<and> stack_reach g (stack t') \<and>
       (\<forall>ext. stack t' = stack t @ ext \<longrightarrow> ext \<noteq> [] \<longrightarrow>
          (\<forall>w \<in> set ext. (w, n) \<in> (arcs g)\<^sup>*) \<and> low_reach g t' n)"
    proof (cases "low t2 n = idx t2 n")
      case root: True
      have nseg: "n \<notin> set seg'" using d2(4) st2 by auto
      let ?c = "rev seg' @ [n]"
      have pop: "pop_component n [] (stack t2) (stacked t2)
          = Inr (?c, stack t, stacked t2 - set (n # seg'))"
        using pop_component_segment [OF nseg, of "[]" "stack t" "stacked t2"] st2 by simp
      obtain ok e' where em: "emit ?c (est t2) = (ok, e')" by (cases "emit ?c (est t2)")
      let ?t3 = "t2\<lparr>stack := stack t, stacked := stacked t2 - set (n # seg'), est := e'\<rparr>"
      have res: "sc (Suc f) g emit n t = Inr (ok, ?t3)"
        using p1 p2 p3 r2 ok2 l2 i2 root pop em by simp
      then have t': "t' = ?t3" using r by simp
      have ce: "comps e' = comps (est t2) @ [?c]" using emit_okD [OF eo em] .
      have sr2': "stack_reach g (stack t @ n # seg')" using sr2 st2 by simp
      have "comps_sc g (comps e')" unfolding ce using comps_sc_snoc [OF cs2 sr2' sg2'] .
      then show ?thesis using t' sr by simp
    next
      case noroot: False
      have res: "sc (Suc f) g emit n t = Inr (True, t2)"
        using p1 p2 p3 r2 ok2 l2 i2 noroot by simp
      then have t': "t' = t2" using r by simp
      have "(\<forall>w \<in> set ext. (w, n) \<in> (arcs g)\<^sup>*) \<and> low_reach g t2 n"
        if "stack t2 = stack t @ ext" for ext
      proof -
        have "ext = n # seg'" using that st2 by simp
        then show ?thesis using sg2' lr2 by simp
      qed
      then show ?thesis using t' cs2 sr2 by blast
    qed
  qed
next
  case (3 f g emit n t)
  show ?case
  proof (intro allI impI)
    fix base seg A t'
    assume ai: "arcs_inv g (comps (est t)) base n seg A t"
      and sr: "stack_reach g (stack t)" and cs: "comps_sc g (comps (est t))"
      and sg: "\<forall>w \<in> set seg. (w, n) \<in> (arcs g)\<^sup>*" and lr: "low_reach g t n"
      and r: "sc_arcs f g emit n [] t = Inr (True, t')"
    have t': "t' = t" using r by simp
    have "\<forall>w \<in> set seg'. (w, n) \<in> (arcs g)\<^sup>*" if "stack t = base @ n # seg'" for seg'
    proof -
      have "seg' = seg" using that arcs_invD(2) [OF ai] by simp
      then show ?thesis using sg by simp
    qed
    then show "comps_sc g (comps (est t')) \<and> stack_reach g (stack t') \<and>
          (\<forall>seg'. stack t' = base @ n # seg' \<longrightarrow> (\<forall>w \<in> set seg'. (w, n) \<in> (arcs g)\<^sup>*)) \<and>
          low_reach g t' n"
      unfolding t' using sr cs lr by blast
  qed
next
  case (4 f g emit n nb rest t)
  note b = "4.prems"(1) and eo = "4.prems"(2) and fuel = "4.prems"(4)
  have arc: "(n, To nb) \<in> arcs g" and rest: "\<forall>h \<in> set rest. (n, To h) \<in> arcs g"
    using "4.prems"(3) by simp_all
  let ?v = "To nb"
  have vn: "?v \<in> nodes g" using BoundsOk_arcs [OF b arc] by (simp add: nodes_def)
  then have v0: "\<not> ?v < 0" by (simp add: nodes_def)
  have nn: "n \<in> nodes g" using arcs_source [OF arc] by (simp add: nodes_def)
  have kn: "nat n < length g" using nn by (auto simp: nodes_def)
  show ?case
  proof (intro allI impI)
    fix base seg A t'
    assume ai: "arcs_inv g (comps (est t)) base n seg A t"
      and sr: "stack_reach g (stack t)" and cs: "comps_sc g (comps (est t))"
      and sg: "\<forall>w \<in> set seg. (w, n) \<in> (arcs g)\<^sup>*" and lr: "low_reach g t n"
      and r: "sc_arcs f g emit n (nb # rest) t = Inr (True, t')"
    note inv = arcs_invD(1) [OF ai] and st = arcs_invD(2) [OF ai]
    note d = tj_invD [OF inv]
    have sr': "stack_reach g (base @ n # seg)" using sr st by simp
    have active: "(a, n) \<in> (arcs g)\<^sup>*" if "a \<in> set (stack t)" for a
      using reach_active [OF sr' sg] that st by simp
    show "comps_sc g (comps (est t')) \<and> stack_reach g (stack t') \<and>
          (\<forall>seg'. stack t' = base @ n # seg' \<longrightarrow> (\<forall>w \<in> set seg'. (w, n) \<in> (arcs g)\<^sup>*)) \<and>
          low_reach g t' n"
    proof (cases "?v \<in> indexed t")
      case False
      from sc_correct(1) [OF b eo inv vn False fuel] obtain ok1 t1 where
        r1: "sc f g emit ?v t = Inr (ok1, t1)" and post1: "ok1 \<longrightarrow> sc_post g comps t ?v t1"
        by blast
      have ok1: "ok1" using r v0 False r1 by (cases ok1) simp_all
      then have okT: "ok1 = True" by simp
      have r1': "sc f g emit ?v t = Inr (True, t1)" using r1 ok1 by simp
      have post: "sc_post g comps t ?v t1" using post1 ok1 by simp
      then have inv1: "tj_inv g (comps (est t1)) t1" and fr1: "tj_frame t t1 {}"
        unfolding sc_post_def by blast+
      from post obtain ext where ext: "stack t1 = stack t @ ext"
        and extc: "if ext = [] then xnum t \<le> low t1 ?v
           else hd ext = ?v \<and> low t1 ?v \<noteq> idx t1 ?v \<and> low_ok t1 ?v (out_arcs g (set ext)) \<and>
                (\<exists>u \<in> set (stack t1). low t1 ?v = idx t1 u)"
        unfolding sc_post_def by blast
      note d1 = tj_invD [OF inv1]
      have rv: "\<forall>a \<in> set (stack t). (a, ?v) \<in> (arcs g)\<^sup>*"
      proof
        fix a assume "a \<in> set (stack t)"
        then have "(a, n) \<in> (arcs g)\<^sup>*" by (rule active)
        then show "(a, ?v) \<in> (arcs g)\<^sup>*" using arc by (rule rtrancl_into_rtrancl)
      qed
      from "4.IH"(1) [OF v0 False b eo inv vn False fuel sr cs rv, THEN spec, THEN mp, OF r1']
      have cs1: "comps_sc g (comps (est t1))" and sr1: "stack_reach g (stack t1)"
        and ex1: "\<forall>ext. stack t1 = stack t @ ext \<longrightarrow> ext \<noteq> [] \<longrightarrow>
          (\<forall>w \<in> set ext. (w, ?v) \<in> (arcs g)\<^sup>*) \<and> low_reach g t1 ?v"
        by blast+
      let ?t1' = "if low t1 ?v < low t1 n then t1\<lparr>lowlink := (lowlink t1)[nat n := low t1 ?v]\<rparr>
                    else t1"
      from arcs_inv_child [OF ai post False] obtain seg1 A1 where
        ai1: "arcs_inv g (comps (est t1)) base n seg1 A1 ?t1'"
        by blast
      have e1: "est ?t1' = est t1" and s1: "stack ?t1' = stack t1" and i1: "index ?t1' = index t1"
        by simp_all
      have st1: "stack t1 = base @ n # seg1" using arcs_invD(2) [OF ai1] s1 by simp
      have seg1: "seg1 = seg @ ext" using st1 ext st by simp
      have l1: "at (lowlink t1) ?v = Inr (low t1 ?v)" using at_node [OF vn d1(2)] .
      have l2: "at (lowlink t1) n = Inr (low t1 n)" using at_node [OF nn d1(2)] .
      have fuel1: "length g \<le> f + card (indexed ?t1')"
        using fuel_mono [OF fuel _ d1(8)] fr1 unfolding tj_frame_def by simp
      have ai1': "arcs_inv g (comps (est ?t1')) base n seg1 A1 ?t1'" using ai1 e1 by (simp only:)
      have sr1': "stack_reach g (stack ?t1')" using sr1 s1 by (simp only:)
      have cs1': "comps_sc g (comps (est ?t1'))" using cs1 e1 by (simp only:)
      have nst: "n \<in> set (stack t)" using st by simp
      have ni: "n \<in> indexed t" using nst tj_inv_stack_indexed [OF inv] by blast
      have lown: "low t1 n = low t n" using fr1 ni unfolding tj_frame_def by simp
      have below: "\<exists>u \<in> set (stack t). low t1 ?v = idx t1 u \<and> (?v, u) \<in> (arcs g)\<^sup>*"
        if ne: "ext \<noteq> []"
      proof -
        from ex1 ext ne have "low_reach g t1 ?v" by blast
        then obtain u where u: "u \<in> set (stack t1)" "low t1 ?v = idx t1 u" "(?v, u) \<in> (arcs g)\<^sup>*"
          unfolding low_reach_def by blast
        from extc ne have h: "hd ext = ?v" and neq: "low t1 ?v \<noteq> idx t1 ?v" by simp_all
        from h ne obtain tl where tl: "ext = ?v # tl" by (cases ext) auto
        have vst: "?v \<in> set (stack t1)" using ext tl by simp
        have "low t1 ?v \<le> idx t1 ?v" using d1(10) vst by blast
        then have lt: "idx t1 u < idx t1 ?v" using neq u(2) by simp
        have srt: "sorted_wrt (\<lambda>a b. idx t1 a < idx t1 b) (stack t @ ?v # tl)"
          using d1(9) ext tl by simp
        have "u \<in> set (stack t @ ?v # tl)" using u(1) ext tl by simp
        from below_child [OF srt this lt] show ?thesis using u(2,3) by blast
      qed
      have sg1: "\<forall>w \<in> set seg1. (w, n) \<in> (arcs g)\<^sup>*"
      proof
        fix w assume "w \<in> set seg1"
        then consider "w \<in> set seg" | "w \<in> set ext" using seg1 by auto
        then show "(w, n) \<in> (arcs g)\<^sup>*"
        proof cases
          case 1
          then show ?thesis using sg by simp
        next
          case 2
          then have ne: "ext \<noteq> []" by auto
          have wv: "(w, ?v) \<in> (arcs g)\<^sup>*" using ex1 ext ne 2 by blast
          from below [OF ne] obtain u where u: "u \<in> set (stack t)" "(?v, u) \<in> (arcs g)\<^sup>*" by blast
          have "(u, n) \<in> (arcs g)\<^sup>*" using active [OF u(1)] .
          then show ?thesis using wv u(2) by (meson rtrancl_trans)
        qed
      qed
      have lr1: "low_reach g ?t1' n"
      proof (cases "low t1 ?v < low t1 n")
        case True
        have ne: "ext \<noteq> []"
        proof
          assume "ext = []"
          then have "xnum t \<le> low t1 ?v" using extc by simp
          moreover have "low t n \<le> idx t n" "idx t n < xnum t" using d(10) nst by blast+
          ultimately show False using True lown by simp
        qed
        from below [OF ne] obtain u where u: "u \<in> set (stack t)" "low t1 ?v = idx t1 u"
          "(?v, u) \<in> (arcs g)\<^sup>*" by blast
        have pu: "(n, u) \<in> (arcs g)\<^sup>*" using arc u(3) by (rule converse_rtrancl_into_rtrancl)
        have ust: "u \<in> set (stack t1)" using u(1) ext by simp
        have "low (t1\<lparr>lowlink := (lowlink t1)[nat n := low t1 ?v]\<rparr>) n = low t1 ?v"
          using kn d1(2) by simp
        then have "low_reach g (t1\<lparr>lowlink := (lowlink t1)[nat n := low t1 ?v]\<rparr>) n"
          unfolding low_reach_def using ust u(2) pu by auto
        then show ?thesis using True by simp
      next
        case False
        from lr obtain u where u: "u \<in> set (stack t)" "low t n = idx t u" "(n, u) \<in> (arcs g)\<^sup>*"
          unfolding low_reach_def by blast
        have ui: "u \<in> indexed t" using u(1) tj_inv_stack_indexed [OF inv] by blast
        have iu: "idx t1 u = idx t u" using fr1 ui unfolding tj_frame_def by simp
        have ust: "u \<in> set (stack t1)" using u(1) ext by simp
        have "low t1 n = idx t1 u" using iu u(2) lown by simp
        then have "low_reach g t1 n" unfolding low_reach_def using ust u(3) by blast
        then show ?thesis using False by simp
      qed
      have rf: "sc_arcs f g emit n rest ?t1' = Inr (True, t')"
        using r v0 False r1 ok1 l1 l2 by simp
      note IH2 = "4.IH"(2) [OF v0 False r1 refl okT l1 l2 b eo rest fuel1, THEN spec, THEN spec, THEN spec, THEN mp, THEN mp, THEN mp, THEN mp, THEN mp, THEN spec, THEN mp]
      from IH2 [OF ai1' sr1' cs1' sg1 lr1 rf]
      show ?thesis .
    next
      case ind: True
      show ?thesis
      proof (cases "?v \<in> stacked t")
        case True
        then have vs: "?v \<in> set (stack t)" using d(3) by simp
        let ?t' = "if idx t ?v < low t n then t\<lparr>lowlink := (lowlink t)[nat n := idx t ?v]\<rparr> else t"
        have e1: "est ?t' = est t" and s1: "stack ?t' = stack t" by simp_all
        have ai1: "arcs_inv g (comps (est ?t')) base n seg (insert (n, ?v) A) ?t'"
          using arcs_inv_stacked [OF ai vs] e1 by (simp only:)
        have l1: "at (index t) ?v = Inr (idx t ?v)" using at_node [OF vn d(1)] .
        have l2: "at (lowlink t) n = Inr (low t n)" using at_node [OF nn d(2)] .
        have fuel1: "length g \<le> f + card (indexed ?t')" using fuel by simp
        have sr1: "stack_reach g (stack ?t')" using sr s1 by (simp only:)
        have cs1: "comps_sc g (comps (est ?t'))" using cs e1 by (simp only:)
        have lr1: "low_reach g ?t' n"
        proof (cases "idx t ?v < low t n")
          case lt: True
          have "low (t\<lparr>lowlink := (lowlink t)[nat n := idx t ?v]\<rparr>) n = idx t ?v"
            using kn d(2) by simp
          moreover have "(n, ?v) \<in> (arcs g)\<^sup>*" using arc by simp
          ultimately have "low_reach g (t\<lparr>lowlink := (lowlink t)[nat n := idx t ?v]\<rparr>) n"
            unfolding low_reach_def using vs by auto
          then show ?thesis using lt by simp
        next
          case False
          then show ?thesis using lr by simp
        qed
        have rf: "sc_arcs f g emit n rest ?t' = Inr (True, t')"
          using r v0 ind True l1 l2 by simp
        have ind': "\<not> ?v \<notin> indexed t" using ind by simp
        note IH3 = "4.IH"(3) [OF v0 ind' True l1 l2 b eo rest fuel1, THEN spec, THEN spec, THEN spec, THEN mp, THEN mp, THEN mp, THEN mp, THEN mp, THEN spec, THEN mp]
        from IH3 [OF ai1 sr1 cs1 sg lr1 rf]
        show ?thesis .
      next
        case False
        have ai1: "arcs_inv g (comps (est t)) base n seg (insert (n, ?v) A) t"
          using arcs_inv_emitted [OF ai ind False] .
        have rf: "sc_arcs f g emit n rest t = Inr (True, t')" using r v0 ind False by simp
        have ind': "\<not> ?v \<notin> indexed t" using ind by simp
        note IH4 = "4.IH"(4) [OF v0 ind' False b eo rest fuel, THEN spec, THEN spec, THEN spec, THEN mp, THEN mp, THEN mp, THEN mp, THEN mp, THEN spec, THEN mp]
        from IH4 [OF ai1 sr cs sg lr rf]
        show ?thesis .
      qed
    qed
  qed
qed

lemma Tarjan_loop_sc:
  fixes t :: "'e tarjan"
  assumes b: "BoundsOk g" and eo: "emit_ok emit comps" and al: "\<forall>c e. fst (emit c e)"
  shows "tj_inv g (comps (est t)) t \<Longrightarrow> stack t = [] \<Longrightarrow> set ns \<subseteq> nodes g \<Longrightarrow>
     comps_sc g (comps (est t)) \<Longrightarrow> Tarjan_loop g emit ns t = Inr t' \<Longrightarrow>
     comps_sc g (comps (est t'))"
proof (induction ns arbitrary: t)
  case Nil
  then show ?case by simp
next
  case (Cons n ns)
  note inv = Cons.prems(1) and e = Cons.prems(2) and cs = Cons.prems(4) and r = Cons.prems(5)
  have n: "n \<in> nodes g" and ns: "set ns \<subseteq> nodes g" using Cons.prems(3) by simp_all
  show ?case
  proof (cases "n \<in> indexed t")
    case True
    then have "Tarjan_loop g emit ns t = Inr t'" using r by simp
    from Cons.IH [OF inv e ns cs this] show ?thesis .
  next
    case False
    have fuel: "length g \<le> length g + card (indexed t)" by simp
    from sc_correct(1) [OF b eo inv n False fuel] obtain ok1 t1 where
      r1: "sc (length g) g emit n t = Inr (ok1, t1)" and p1: "ok1 \<longrightarrow> sc_post g comps t n t1"
      by blast
    have ok1: "ok1" using sc_continues(1) [OF al, of "length g" g n t] r1 by blast
    then have r1': "sc (length g) g emit n t = Inr (True, t1)" using r1 by simp
    have post: "sc_post g comps t n t1" using p1 ok1 by simp
    then have inv1: "tj_inv g (comps (est t1)) t1" unfolding sc_post_def by blast
    have e1: "stack t1 = []" using sc_post_top [OF post e] .
    have sr: "stack_reach g (stack t)" using e by (simp add: stack_reach_def)
    have rn: "\<forall>a \<in> set (stack t). (a, n) \<in> (arcs g)\<^sup>*" using e by simp
    from sc_reach(1) [OF b eo inv n False fuel sr cs rn, THEN spec, THEN mp, OF r1']
    have cs1: "comps_sc g (comps (est t1))" by blast
    have "Tarjan_loop g emit ns t1 = Inr t'" using r False r1' by simp
    from Cons.IH [OF inv1 e1 ns cs1 this] show ?thesis .
  qed
qed

lemma Tarjan_sc:
  assumes b: "BoundsOk g" and eo: "emit_ok emit comps" and al: "\<forall>c e. fst (emit c e)"
    and c0: "comps e = []" and r: "Tarjan g emit e = Inr e'"
  shows "comps_sc g (comps e')"
proof -
  let ?t0 = "\<lparr>indexed = {}, stacked = {}, index = replicate (length g) 0,
              lowlink = replicate (length g) 0, xnum = 0, stack = [], est = e\<rparr>"
  have inv0: "tj_inv g (comps (est ?t0)) ?t0"
    unfolding tj_inv_def using c0 by (simp add: closed_def)
  have ns: "set (map int [0..<length g]) \<subseteq> nodes g" using set_map_int_upt [of "length g"]
    by (simp add: nodes_def)
  have cs0: "comps_sc g (comps (est ?t0))" using c0 by (simp add: comps_sc_def)
  have e0: "stack ?t0 = []" by simp
  from r obtain t' where r': "Tarjan_loop g emit (map int [0..<length g]) ?t0 = Inr t'"
    and e': "e' = est t'"
    by (auto simp: Tarjan_def split: sum.splits)
  from Tarjan_loop_sc [OF b eo al inv0 e0 ns cs0 r'] show ?thesis using e' by simp
qed

lemma TarjanForward_sc:
  assumes b: "BoundsOk g" and r: "TarjanForward g = Inr scc"
  shows "comps_sc g scc"
proof -
  have eo: "emit_ok (\<lambda>c r. (True, r @ [c])) id" by (simp add: emit_ok_def)
  from TarjanForward_correct [OF b] obtain es where
    T: "Tarjan g (\<lambda>c r. (True, r @ [c])) [] = Inr es" and F: "TarjanForward g = Inr (rev es)"
    by blast
  have "comps_sc g (id es)"
    by (rule Tarjan_sc [OF b eo _ _ T]) simp_all
  then have "comps_sc g (rev es)" by (simp add: comps_sc_def)
  then show ?thesis using F r by simp
qed

lemma closed_rtrancl:
  assumes c: "closed g A" and p: "(u, v) \<in> (arcs g)\<^sup>*" and u: "u \<in> A"
  shows "v \<in> A"
  using p u
proof (induction rule: rtrancl_induct)
  case base
  then show ?case .
next
  case (step y z)
  then show ?case using c unfolding closed_def by blast
qed

lemma closed_prefixes_no_path:
  assumes d: "distinct (concat es)"
    and cl: "\<forall>k \<le> length es. closed g (set (concat (take k es)))"
    and ab: "a < b" "b < length es"
    and u: "u \<in> set (es ! a)" and v: "v \<in> set (es ! b)"
  shows "(u, v) \<notin> (arcs g)\<^sup>*"
proof
  assume path: "(u, v) \<in> (arcs g)\<^sup>*"
  have c: "closed g (set (concat (take (Suc a) es)))" using cl ab by simp
  have a: "a < length es" using ab by simp
  have "es ! a \<in> set (take (Suc a) es)" using a by (simp add: take_Suc_conv_app_nth)
  then have "u \<in> set (concat (take (Suc a) es))" using u by auto
  then have "v \<in> set (concat (take (Suc a) es))" using closed_rtrancl [OF c path] by simp
  then obtain c where c: "c < Suc a" "c < length es" "v \<in> set (es ! c)"
    using in_concat_block [of v "take (Suc a) es"] by auto
  have "c < b" using c(1) ab(1) by simp
  then show False using concat_blocks_disjoint [OF d _ ab(2), of c] c(3) v by blast
qed

text \<open>
  Claim C2. For a graph with arc targets in range, \<open>TarjanForward\<close> returns a list of
  components whose members are exactly the nodes \<open>0..N-1\<close>, every node being a member of
  exactly one component and listed there once. No component is empty, and any two members
  of a component reach each other along arcs of the graph. No path of the graph, and so no
  arc, leads from a member of a component to a member of a component that stands earlier in
  the list: the components are the strongly connected components, in a topological order of
  the condensation. The list is the reverse of the sequence of the components that \<open>Tarjan\<close>
  emits.
\<close>

theorem TarjanForward_partition_order:
  assumes "BoundsOk g"
  shows "\<exists>scc. TarjanForward g = Inr scc
           \<and> Tarjan g (\<lambda>c r. (True, r @ [c])) [] = Inr (rev scc)
           \<and> set (concat scc) = {n. 0 \<le> n \<and> n < int (length g)}
           \<and> distinct (concat scc)
           \<and> (\<forall>n. 0 \<le> n \<and> n < int (length g) \<longrightarrow> (\<exists>!i. i < length scc \<and> n \<in> set (scc ! i)))
           \<and> (\<forall>c \<in> set scc. c \<noteq> [] \<and> (\<forall>u \<in> set c. \<forall>v \<in> set c. (u, v) \<in> (arcs g)\<^sup>*))
           \<and> (\<forall>i j u v. i < j \<and> j < length scc \<and> u \<in> set (scc ! j) \<and> v \<in> set (scc ! i)
                 \<longrightarrow> (u, v) \<notin> (arcs g)\<^sup>* \<and> (u, v) \<notin> arcs g)"
proof -
  from TarjanForward_correct [OF assms] obtain es where
    T: "Tarjan g (\<lambda>c r. (True, r @ [c])) [] = Inr es" and F: "TarjanForward g = Inr (rev es)"
    and d: "distinct (concat es)" and s: "set (concat es) = nodes g"
    and cl: "\<forall>k \<le> length es. closed g (set (concat (take k es)))"
    by blast
  let ?scc = "rev es"
  have s': "set (concat ?scc) = {n. 0 \<le> n \<and> n < int (length g)}"
    using s by (simp add: nodes_def)
  have d': "distinct (concat ?scc)" using d by (simp add: distinct_concat_rev)
  have one: "\<exists>!i. i < length ?scc \<and> n \<in> set (?scc ! i)" if n: "0 \<le> n \<and> n < int (length g)" for n
  proof -
    have "n \<in> set (concat ?scc)" using s' n by blast
    then obtain i where i: "i < length ?scc" "n \<in> set (?scc ! i)"
      using in_concat_block [of n "rev es"] by blast
    have "j = i" if j: "j < length ?scc" "n \<in> set (?scc ! j)" for j
    proof (rule ccontr)
      assume "j \<noteq> i"
      then consider "i < j" | "j < i" by arith
      then show False
      proof cases
        case 1
        then show False using concat_blocks_disjoint [OF d' 1 j(1)] i(2) j(2) by blast
      next
        case 2
        then show False using concat_blocks_disjoint [OF d' 2 i(1)] i(2) j(2) by blast
      qed
    qed
    then show ?thesis using i by blast
  qed
  have ord: "(u, v) \<notin> (arcs g)\<^sup>* \<and> (u, v) \<notin> arcs g"
    if ij: "i < j \<and> j < length ?scc \<and> u \<in> set (?scc ! j) \<and> v \<in> set (?scc ! i)" for i j u v
  proof -
    let ?a = "length es - Suc j" and ?b = "length es - Suc i"
    from ij have lt: "i < j" "j < length es" by simp_all
    have 1: "?scc ! j = es ! ?a" "?scc ! i = es ! ?b" using lt by (simp_all add: rev_nth)
    have 2: "?a < ?b" "?b < length es" using lt by arith+
    have "(u, v) \<notin> (arcs g)\<^sup>*" using closed_prefixes_no_path [OF d cl 2] ij 1 by simp
    then show ?thesis by blast
  qed
  have sc: "\<forall>c \<in> set ?scc. c \<noteq> [] \<and> (\<forall>u \<in> set c. \<forall>v \<in> set c. (u, v) \<in> (arcs g)\<^sup>*)"
    using TarjanForward_sc [OF assms F] unfolding comps_sc_def .
  show ?thesis
  proof (intro exI [of _ ?scc] conjI)
    show "TarjanForward g = Inr ?scc" by (rule F)
    show "Tarjan g (\<lambda>c r. (True, r @ [c])) [] = Inr (rev ?scc)" using T by simp
    show "set (concat ?scc) = {n. 0 \<le> n \<and> n < int (length g)}" by (rule s')
    show "distinct (concat ?scc)" by (rule d')
    show "\<forall>n. 0 \<le> n \<and> n < int (length g) \<longrightarrow> (\<exists>!i. i < length ?scc \<and> n \<in> set (?scc ! i))"
      using one by blast
    show "\<forall>c \<in> set ?scc. c \<noteq> [] \<and> (\<forall>u \<in> set c. \<forall>v \<in> set c. (u, v) \<in> (arcs g)\<^sup>*)"
      by (rule sc)
    show "\<forall>i j u v. i < j \<and> j < length ?scc \<and> u \<in> set (?scc ! j) \<and> v \<in> set (?scc ! i)
                 \<longrightarrow> (u, v) \<notin> (arcs g)\<^sup>* \<and> (u, v) \<notin> arcs g"
      using ord by blast
  qed
qed


theorem TarjanForward_partition_order_witness:
  "BoundsOk [[\<lparr>To = 1, Label = ()\<rparr>],
             [\<lparr>To = 4, Label = ()\<rparr>, \<lparr>To = 2, Label = ()\<rparr>, \<lparr>To = 5, Label = ()\<rparr>],
             [\<lparr>To = 3, Label = ()\<rparr>, \<lparr>To = 6, Label = ()\<rparr>],
             [\<lparr>To = 2, Label = ()\<rparr>, \<lparr>To = 7, Label = ()\<rparr>],
             [\<lparr>To = 5, Label = ()\<rparr>, \<lparr>To = 0, Label = ()\<rparr>],
             [\<lparr>To = 6, Label = ()\<rparr>],
             [\<lparr>To = 5, Label = ()\<rparr>],
             [\<lparr>To = 3, Label = ()\<rparr>, \<lparr>To = 6, Label = ()\<rparr>]]
   \<and> TarjanForward [[\<lparr>To = 1, Label = ()\<rparr>],
             [\<lparr>To = 4, Label = ()\<rparr>, \<lparr>To = 2, Label = ()\<rparr>, \<lparr>To = 5, Label = ()\<rparr>],
             [\<lparr>To = 3, Label = ()\<rparr>, \<lparr>To = 6, Label = ()\<rparr>],
             [\<lparr>To = 2, Label = ()\<rparr>, \<lparr>To = 7, Label = ()\<rparr>],
             [\<lparr>To = 5, Label = ()\<rparr>, \<lparr>To = 0, Label = ()\<rparr>],
             [\<lparr>To = 6, Label = ()\<rparr>],
             [\<lparr>To = 5, Label = ()\<rparr>],
             [\<lparr>To = 3, Label = ()\<rparr>, \<lparr>To = 6, Label = ()\<rparr>]]
       = Inr [[4, 1, 0], [7, 3, 2], [6, 5]]"
proof -
  let ?g = "[[\<lparr>To = 1, Label = ()\<rparr>],
             [\<lparr>To = 4, Label = ()\<rparr>, \<lparr>To = 2, Label = ()\<rparr>, \<lparr>To = 5, Label = ()\<rparr>],
             [\<lparr>To = 3, Label = ()\<rparr>, \<lparr>To = 6, Label = ()\<rparr>],
             [\<lparr>To = 2, Label = ()\<rparr>, \<lparr>To = 7, Label = ()\<rparr>],
             [\<lparr>To = 5, Label = ()\<rparr>, \<lparr>To = 0, Label = ()\<rparr>],
             [\<lparr>To = 6, Label = ()\<rparr>],
             [\<lparr>To = 5, Label = ()\<rparr>],
             [\<lparr>To = 3, Label = ()\<rparr>, \<lparr>To = 6, Label = ()\<rparr>]]
    :: unit LabeledAdjacencyList"
  have b: "BoundsOk ?g" by (simp add: BoundsOk_def)
  have "\<exists>scc. TarjanForward ?g = Inr scc"
    using TarjanForward_partition_order [OF b] by (elim exE conjE) (rule exI, assumption)
  moreover have "TarjanForward ?g = Inr [[4, 1, 0], [7, 3, 2], [6, 5]]" by code_simp
  ultimately show ?thesis using b by simp
qed
subsection \<open>The calls of \<open>emit\<close>\<close>

lemma records_logged: "records (logged emit)"
  by (simp add: records_def logged_def split: prod.splits)

lemma log_post_emit:
  assumes "records em" and "\<forall>x \<in> set (snd s). snd x" and "em c s = (ok, s')"
  shows "log_post ok (snd s')"
proof -
  have "snd s' = snd s @ [(c, ok)]" using assms(1,3) unfolding records_def by (metis fst_conv snd_conv)
  then show ?thesis using assms(2) by (simp add: log_post_def)
qed

lemma sc_log:
  fixes t :: "('e \<times> (NI list \<times> bool) list) tarjan"
  shows "records em \<Longrightarrow> \<forall>x \<in> set (snd (est t)). snd x \<Longrightarrow>
     \<forall>ok t'. sc f g em n t = Inr (ok, t') \<longrightarrow> log_post ok (snd (est t'))"
  and "records em \<Longrightarrow> \<forall>x \<in> set (snd (est t)). snd x \<Longrightarrow>
     \<forall>ok t'. sc_arcs f g em p hs t = Inr (ok, t') \<longrightarrow> log_post ok (snd (est t'))"
proof (induction f g em n t and f g em p hs t rule: sc_sc_arcs.induct)
  case (1 g em n t)
  then show ?case by simp
next
  case (2 f g em n t)
  note rc = "2.prems"(1) and lv = "2.prems"(2)
  let ?t1 = "\<lambda>index' lowlink'. t\<lparr>index := index', indexed := insert n (indexed t),
                lowlink := lowlink', xnum := xnum t + 1,
                stack := stack t @ [n], stacked := insert n (stacked t)\<rparr>"
  show ?case
  proof (intro allI impI)
    fix ok t' assume r: "sc (Suc f) g em n t = Inr (ok, t')"
    obtain index' where p1: "put (index t) n (xnum t) = Inr index'"
      using r by (auto split: sum.splits)
    obtain lowlink' where p2: "put (lowlink t) n (xnum t) = Inr lowlink'"
      using r p1 by (auto split: sum.splits)
    obtain nbs where p3: "at g n = Inr nbs"
      using r p1 p2 by (auto split: sum.splits)
    obtain ok2 t2 where r2: "sc_arcs f g em n nbs (?t1 index' lowlink') = Inr (ok2, t2)"
      using r p1 p2 p3 by (auto split: sum.splits)
    have lv1: "\<forall>x \<in> set (snd (est (?t1 index' lowlink'))). snd x" using lv by simp
    have post2: "log_post ok2 (snd (est t2))"
      using "2.IH" [OF p1 p2 p3 rc lv1] r2 by blast
    show "log_post ok (snd (est t'))"
    proof (cases ok2)
      case False
      then have "ok = False" "t' = t2" using r p1 p2 p3 r2 by simp_all
      then show ?thesis using post2 False by simp
    next
      case True
      then have lv2: "\<forall>x \<in> set (snd (est t2)). snd x" using post2 by (simp add: log_post_def)
      obtain ln where l1: "at (lowlink t2) n = Inr ln"
        using r p1 p2 p3 r2 True by (auto split: sum.splits)
      obtain ix where l2: "at (index t2) n = Inr ix"
        using r p1 p2 p3 r2 True l1 by (auto split: sum.splits)
      show ?thesis
      proof (cases "ln = ix")
        case root: True
        obtain c S' stk' where pop: "pop_component n [] (stack t2) (stacked t2) = Inr (c, S', stk')"
          using r p1 p2 p3 r2 True l1 l2 root by (auto split: sum.splits)
        obtain ok3 e3 where em: "em c (est t2) = (ok3, e3)" by (cases "em c (est t2)")
        have "ok = ok3" "est t' = e3" using r p1 p2 p3 r2 True l1 l2 root pop em by auto
        then show ?thesis using log_post_emit [OF rc lv2 em] by simp
      next
        case False
        then have "ok = True" "t' = t2" using r p1 p2 p3 r2 True l1 l2 by simp_all
        then show ?thesis using lv2 by (simp add: log_post_def)
      qed
    qed
  qed
next
  case (3 f g em n t)
  then show ?case by (simp add: log_post_def)
next
  case (4 f g em n nb rest t)
  note rc = "4.prems"(1) and lv = "4.prems"(2)
  show ?case
  proof (intro allI impI)
    fix ok t' assume r: "sc_arcs f g em n (nb # rest) t = Inr (ok, t')"
    have v0: "\<not> To nb < 0" using r by (auto split: if_splits)
    show "log_post ok (snd (est t'))"
    proof (cases "To nb \<in> indexed t")
      case False
      obtain ok1 t1 where r1: "sc f g em (To nb) t = Inr (ok1, t1)"
        using r v0 False by (auto split: sum.splits)
      have post1: "log_post ok1 (snd (est t1))" using "4.IH"(1) [OF v0 False rc lv] r1 by blast
      show ?thesis
      proof (cases ok1)
        case no: False
        then have "ok = False" "t' = t1" using r v0 False r1 by simp_all
        then show ?thesis using post1 no by simp
      next
        case True
        then have ok1: "ok1 = True" by simp
        have lv1: "\<forall>x \<in> set (snd (est t1)). snd x" using post1 True by (simp add: log_post_def)
        obtain lnb where l1: "at (lowlink t1) (To nb) = Inr lnb"
          using r v0 False r1 ok1 by (auto split: sum.splits)
        obtain ln where l2: "at (lowlink t1) n = Inr ln"
          using r v0 False r1 ok1 l1 by (auto split: sum.splits)
        let ?t1' = "if lnb < ln then t1\<lparr>lowlink := (lowlink t1)[nat n := lnb]\<rparr> else t1"
        have lv1': "\<forall>x \<in> set (snd (est ?t1')). snd x" using lv1 by simp
        have "sc_arcs f g em n rest ?t1' = Inr (ok, t')"
          using r v0 False r1 ok1 l1 l2 by simp
        then show ?thesis using "4.IH"(2) [OF v0 False r1 refl ok1 l1 l2 rc lv1'] by blast
      qed
    next
      case ind: True
      show ?thesis
      proof (cases "To nb \<in> stacked t")
        case True
        obtain inb where l1: "at (index t) (To nb) = Inr inb"
          using r v0 ind True by (auto split: sum.splits)
        obtain ln where l2: "at (lowlink t) n = Inr ln"
          using r v0 ind True l1 by (auto split: sum.splits)
        let ?t' = "if inb < ln then t\<lparr>lowlink := (lowlink t)[nat n := inb]\<rparr> else t"
        have lv': "\<forall>x \<in> set (snd (est ?t')). snd x" using lv by simp
        have "sc_arcs f g em n rest ?t' = Inr (ok, t')"
          using r v0 ind True l1 l2 by simp
        then show ?thesis using "4.IH"(3) [OF v0 _ True l1 l2 rc lv'] ind by blast
      next
        case False
        have "sc_arcs f g em n rest t = Inr (ok, t')" using r v0 ind False by simp
        then show ?thesis using "4.IH"(4) [OF v0 _ False rc lv] ind by blast
      qed
    qed
  qed
qed

lemma Tarjan_loop_log:
  fixes t :: "('e \<times> (NI list \<times> bool) list) tarjan"
  assumes rc: "records em"
  shows "\<forall>x \<in> set (snd (est t)). snd x \<Longrightarrow> Tarjan_loop g em ns t = Inr t' \<Longrightarrow>
     \<forall>x \<in> set (butlast (snd (est t'))). snd x"
proof (induction ns arbitrary: t)
  case Nil
  then show ?case by (auto dest: in_set_butlastD)
next
  case (Cons n ns)
  show ?case
  proof (cases "n \<in> indexed t")
    case True
    then show ?thesis using Cons by simp
  next
    case False
    obtain ok1 t1 where r1: "sc (length g) g em n t = Inr (ok1, t1)"
      using Cons.prems(2) False by (auto split: sum.splits)
    have post1: "log_post ok1 (snd (est t1))" using sc_log(1) [OF rc Cons.prems(1)] r1 by blast
    show ?thesis
    proof (cases ok1)
      case no: False
      then have "t' = t1" using Cons.prems(2) False r1 by simp
      then show ?thesis using post1 no by (simp add: log_post_def)
    next
      case True
      then have lv1: "\<forall>x \<in> set (snd (est t1)). snd x" using post1 by (simp add: log_post_def)
      have "Tarjan_loop g em ns t1 = Inr t'" using Cons.prems(2) False r1 True by simp
      then show ?thesis using Cons.IH [OF lv1] by blast
    qed
  qed
qed

lemma Tarjan_log:
  assumes "Tarjan g (logged emit) (e, []) = Inr (e', log)"
  shows "\<forall>x \<in> set (butlast log). snd x"
proof -
  let ?t0 = "\<lparr>indexed = {}, stacked = {}, index = replicate (length g) 0,
              lowlink = replicate (length g) 0, xnum = 0, stack = [], est = (e, [])\<rparr>
     :: ('a \<times> (NI list \<times> bool) list) tarjan"
  obtain t' where r: "Tarjan_loop g (logged emit) (map int [0..<length g]) ?t0 = Inr t'"
    and e: "est t' = (e', log)"
    using assms by (auto simp: Tarjan_def split: sum.splits)
  have "\<forall>x \<in> set (snd (est ?t0)). snd x" by simp
  from Tarjan_loop_log [OF records_logged this r] e show ?thesis by simp
qed

lemma mirrors_logged: "mirrors emit (logged emit)"
  by (simp add: mirrors_def logged_def split: prod.splits)

lemma unlogged_simps [simp]:
  "indexed (unlogged t) = indexed t" "stacked (unlogged t) = stacked t"
  "index (unlogged t) = index t" "lowlink (unlogged t) = lowlink t"
  "xnum (unlogged t) = xnum t" "stack (unlogged t) = stack t" "est (unlogged t) = fst (est t)"
  by (simp_all add: unlogged_def)

lemma unlogged_push:
  "(unlogged t)\<lparr>index := a, indexed := b, lowlink := c, xnum := d, stack := e, stacked := f\<rparr>
     = unlogged (t\<lparr>index := a, indexed := b, lowlink := c, xnum := d, stack := e, stacked := f\<rparr>)"
  by (simp add: unlogged_def)

lemma unlogged_lower:
  "(unlogged t)\<lparr>lowlink := c\<rparr> = unlogged (t\<lparr>lowlink := c\<rparr>)"
  by (simp add: unlogged_def)

lemma unlogged_lower_if:
  "(if b then (unlogged t)\<lparr>lowlink := c\<rparr> else unlogged t)
     = unlogged (if b then t\<lparr>lowlink := c\<rparr> else t)"
  by (simp add: unlogged_def)

lemma unlogged_emit:
  "(unlogged t)\<lparr>stack := a, stacked := b, est := fst s\<rparr> = unlogged (t\<lparr>stack := a, stacked := b, est := s\<rparr>)"
  by (simp add: unlogged_def)

lemma sc_unlogged:
  fixes t :: "('e \<times> 'x) tarjan"
  shows "mirrors emit em \<Longrightarrow>
     sc f g emit n (unlogged t) = map_sum id (map_prod id unlogged) (sc f g em n t)"
  and "mirrors emit em \<Longrightarrow>
     sc_arcs f g emit p hs (unlogged t) = map_sum id (map_prod id unlogged) (sc_arcs f g em p hs t)"
proof (induction f g em n t and f g em p hs t rule: sc_sc_arcs.induct)
  case (1 g em n t)
  then show ?case by simp
next
  case (2 f g em n t)
  note m = "2.prems"
  have em: "emit c (fst s) = (ok, fst s')" if "em c s = (ok, s')" for c s ok s'
    using m that unfolding mirrors_def by (metis fst_conv snd_conv)
  show ?case
  proof (cases "put (index t) n (xnum t)")
    case Inl
    then show ?thesis by simp
  next
    case p1: (Inr index')
    show ?thesis
    proof (cases "put (lowlink t) n (xnum t)")
      case Inl
      then show ?thesis using p1 by simp
    next
      case p2: (Inr lowlink')
      show ?thesis
      proof (cases "at g n")
        case Inl
        then show ?thesis using p1 p2 by simp
      next
        case p3: (Inr nbs)
        let ?t1 = "t\<lparr>index := index', indexed := insert n (indexed t),
                lowlink := lowlink', xnum := xnum t + 1,
                stack := stack t @ [n], stacked := insert n (stacked t)\<rparr>"
        note IH = "2.IH" [OF p1 p2 p3 m]
        show ?thesis
        proof (cases "sc_arcs f g em n nbs ?t1")
          case Inl
          then show ?thesis using p1 p2 p3 IH by (simp add: unlogged_push)
        next
          case (Inr r2)
          obtain ok2 t2 where r2: "r2 = (ok2, t2)" by (cases r2)
          show ?thesis
          proof (cases ok2)
            case False
            then show ?thesis using p1 p2 p3 IH Inr r2 by (simp add: unlogged_push)
          next
            case True
            show ?thesis
            proof (cases "at (lowlink t2) n")
              case Inl
              then show ?thesis using p1 p2 p3 IH Inr r2 True by (simp add: unlogged_push)
            next
              case l1: (Inr ln)
              show ?thesis
              proof (cases "at (index t2) n")
                case Inl
                then show ?thesis using p1 p2 p3 IH Inr r2 True l1 by (simp add: unlogged_push)
              next
                case l2: (Inr ix)
                show ?thesis
                proof (cases "ln = ix")
                  case False
                  then show ?thesis using p1 p2 p3 IH Inr r2 True l1 l2 by (simp add: unlogged_push)
                next
                  case root: True
                  show ?thesis
                  proof (cases "pop_component n [] (stack t2) (stacked t2)")
                    case Inl
                    then show ?thesis using p1 p2 p3 IH Inr r2 True l1 l2 root
                      by (simp add: unlogged_push)
                  next
                    case pop: (Inr r3)
                    obtain c S' stk' where r3: "r3 = (c, S', stk')" by (cases r3)
                    obtain ok3 s3 where e3: "em c (est t2) = (ok3, s3)" by (cases "em c (est t2)")
                    show ?thesis using p1 p2 p3 IH Inr r2 True l1 l2 root pop r3 e3 em [OF e3]
                      by (simp add: unlogged_push unlogged_emit)
                  qed
                qed
              qed
            qed
          qed
        qed
      qed
    qed
  qed
next
  case (3 f g em n t)
  then show ?case by simp
next
  case (4 f g em n nb rest t)
  note m = "4.prems"
  show ?case
  proof (cases "To nb < 0")
    case True
    then show ?thesis by simp
  next
    case v0: False
    show ?thesis
    proof (cases "To nb \<in> indexed t")
      case False
      note IH1 = "4.IH"(1) [OF v0 False m]
      show ?thesis
      proof (cases "sc f g em (To nb) t")
        case Inl
        then show ?thesis using v0 False IH1 by simp
      next
        case (Inr r1)
        obtain ok1 t1 where r1: "r1 = (ok1, t1)" by (cases r1)
        show ?thesis
        proof (cases ok1)
          case no: False
          then show ?thesis using v0 False IH1 Inr r1 by simp
        next
          case True
          then have ok1: "ok1 = True" by simp
          show ?thesis
          proof (cases "at (lowlink t1) (To nb)")
            case Inl
            then show ?thesis using v0 False IH1 Inr r1 True by simp
          next
            case l1: (Inr lnb)
            show ?thesis
            proof (cases "at (lowlink t1) n")
              case Inl
              then show ?thesis using v0 False IH1 Inr r1 True l1 by simp
            next
              case l2: (Inr ln)
              have rr: "sc f g em (To nb) t = Inr (ok1, t1)" using Inr r1 by simp
              note IH2 = "4.IH"(2) [OF v0 False rr refl ok1 l1 l2 m]
              show ?thesis using v0 False IH1 Inr r1 True l1 l2 IH2
                by (cases "lnb < ln") (simp_all add: unlogged_lower)
            qed
          qed
        qed
      qed
    next
      case ind: True
      show ?thesis
      proof (cases "To nb \<in> stacked t")
        case False
        then show ?thesis using v0 ind "4.IH"(4) [OF v0 _ False m] by simp
      next
        case True
        show ?thesis
        proof (cases "at (index t) (To nb)")
          case Inl
          then show ?thesis using v0 ind True by simp
        next
          case l1: (Inr inb)
          show ?thesis
          proof (cases "at (lowlink t) n")
            case Inl
            then show ?thesis using v0 ind True l1 by simp
          next
            case l2: (Inr ln)
            show ?thesis using v0 ind True l1 l2 "4.IH"(3) [OF v0 _ True l1 l2 m]
              by (cases "inb < ln") (simp_all add: unlogged_lower)
          qed
        qed
      qed
    qed
  qed
qed

lemma Tarjan_loop_unlogged:
  fixes t :: "('e \<times> 'x) tarjan"
  assumes m: "mirrors emit em"
  shows "Tarjan_loop g emit ns (unlogged t) = map_sum id unlogged (Tarjan_loop g em ns t)"
proof (induction ns arbitrary: t)
  case Nil
  then show ?case by simp
next
  case (Cons n ns)
  show ?case
  proof (cases "n \<in> indexed t")
    case True
    then show ?thesis using Cons.IH by simp
  next
    case False
    note s = sc_unlogged(1) [OF m, of "length g" g n t]
    show ?thesis
    proof (cases "sc (length g) g em n t")
      case Inl
      then show ?thesis using False s by simp
    next
      case (Inr r1)
      obtain ok1 t1 where r1: "r1 = (ok1, t1)" by (cases r1)
      show ?thesis using False s Inr r1 Cons.IH by (cases ok1) simp_all
    qed
  qed
qed

lemma Tarjan_unlogged:
  "Tarjan g emit e = map_sum id fst (Tarjan g (logged emit) (e, []))"
proof -
  let ?t0 = "\<lparr>indexed = {}, stacked = {}, index = replicate (length g) 0,
              lowlink = replicate (length g) 0, xnum = 0, stack = [], est = (e, [])\<rparr>
     :: ('a \<times> (NI list \<times> bool) list) tarjan"
  have u: "unlogged ?t0 = \<lparr>indexed = {}, stacked = {}, index = replicate (length g) 0,
              lowlink = replicate (length g) 0, xnum = 0, stack = [], est = e\<rparr>"
    by (simp add: unlogged_def)
  show ?thesis
    using Tarjan_loop_unlogged [OF mirrors_logged, of g emit "map int [0..<length g]" ?t0]
    unfolding u by (simp add: Tarjan_def split: sum.splits)
qed

lemma Tarjan_logged_total:
  assumes "BoundsOk g"
  shows "\<exists>e' log. Tarjan g (logged emit) (e, []) = Inr (e', log)"
proof -
  have eo: "emit_ok (logged emit) (\<lambda>s. map fst (snd s))"
    by (simp add: emit_ok_def logged_def split: prod.splits)
  from Tarjan_correct [OF assms eo, of "(e, [])"] obtain s where
    "Tarjan g (logged emit) (e, []) = Inr s" by auto
  then show ?thesis by (cases s) auto
qed

text \<open>
  Claim C8. The calls of \<open>emit\<close> are recorded, each with the component it is given and the
  answer it returns; the recording changes nothing in what \<open>Tarjan\<close> computes. Whatever the
  graph, the callback and its initial state, a recorded call that returned false is the last
  call recorded: after it \<open>emit\<close> is not called again. With arc targets in range the
  traversal returns.
\<close>

theorem Tarjan_emit_false_is_last:
  "(BoundsOk g \<longrightarrow> (\<exists>e' log. Tarjan g (logged emit) (e, []) = Inr (e', log)))
   \<and> Tarjan g emit e = map_sum id fst (Tarjan g (logged emit) (e, []))
   \<and> (\<forall>e' log k. Tarjan g (logged emit) (e, []) = Inr (e', log) \<and> k < length log
          \<and> \<not> snd (log ! k) \<longrightarrow> Suc k = length log)"
proof (intro conjI allI impI)
  assume "BoundsOk g"
  then show "\<exists>e' log. Tarjan g (logged emit) (e, []) = Inr (e', log)"
    by (rule Tarjan_logged_total)
next
  show "Tarjan g emit e = map_sum id fst (Tarjan g (logged emit) (e, []))"
    by (rule Tarjan_unlogged)
next
  fix e' log k
  assume a: "Tarjan g (logged emit) (e, []) = Inr (e', log) \<and> k < length log \<and> \<not> snd (log ! k)"
  then have T: "Tarjan g (logged emit) (e, []) = Inr (e', log)" by simp
  have all: "\<forall>x \<in> set (butlast log). snd x" using Tarjan_log [OF T] .
  show "Suc k = length log"
  proof (rule ccontr)
    assume "Suc k \<noteq> length log"
    moreover have "k < length log" using a by simp
    ultimately have k: "k < length (butlast log)" by simp
    then have "butlast log ! k \<in> set (butlast log)" by (rule nth_mem)
    moreover have "butlast log ! k = log ! k" using k by (simp add: nth_butlast)
    ultimately show False using all a by auto
  qed
qed

theorem Tarjan_emit_false_is_last_witness:
  "BoundsOk [[\<lparr>To = 1, Label = ()\<rparr>],
             [\<lparr>To = 4, Label = ()\<rparr>, \<lparr>To = 2, Label = ()\<rparr>, \<lparr>To = 5, Label = ()\<rparr>],
             [\<lparr>To = 3, Label = ()\<rparr>, \<lparr>To = 6, Label = ()\<rparr>],
             [\<lparr>To = 2, Label = ()\<rparr>, \<lparr>To = 7, Label = ()\<rparr>],
             [\<lparr>To = 5, Label = ()\<rparr>, \<lparr>To = 0, Label = ()\<rparr>],
             [\<lparr>To = 6, Label = ()\<rparr>],
             [\<lparr>To = 5, Label = ()\<rparr>],
             [\<lparr>To = 3, Label = ()\<rparr>, \<lparr>To = 6, Label = ()\<rparr>]]
   \<and> Tarjan [[\<lparr>To = 1, Label = ()\<rparr>],
             [\<lparr>To = 4, Label = ()\<rparr>, \<lparr>To = 2, Label = ()\<rparr>, \<lparr>To = 5, Label = ()\<rparr>],
             [\<lparr>To = 3, Label = ()\<rparr>, \<lparr>To = 6, Label = ()\<rparr>],
             [\<lparr>To = 2, Label = ()\<rparr>, \<lparr>To = 7, Label = ()\<rparr>],
             [\<lparr>To = 5, Label = ()\<rparr>, \<lparr>To = 0, Label = ()\<rparr>],
             [\<lparr>To = 6, Label = ()\<rparr>],
             [\<lparr>To = 5, Label = ()\<rparr>],
             [\<lparr>To = 3, Label = ()\<rparr>, \<lparr>To = 6, Label = ()\<rparr>]]
        (logged (\<lambda>c r. (length r < 1, r @ [c]))) ([], [])
       = Inr ([[6, 5], [7, 3, 2]], [([6, 5], True), ([7, 3, 2], False)])
   \<and> (1::nat) < length [([6, 5], True), ([7, 3, 2 :: NI], False)]
   \<and> \<not> snd ([([6, 5], True), ([7, 3, 2 :: NI], False)] ! 1)
   \<and> Suc 1 = length [([6, 5], True), ([7, 3, 2 :: NI], False)]"
proof -
  let ?g = "[[\<lparr>To = 1, Label = ()\<rparr>],
             [\<lparr>To = 4, Label = ()\<rparr>, \<lparr>To = 2, Label = ()\<rparr>, \<lparr>To = 5, Label = ()\<rparr>],
             [\<lparr>To = 3, Label = ()\<rparr>, \<lparr>To = 6, Label = ()\<rparr>],
             [\<lparr>To = 2, Label = ()\<rparr>, \<lparr>To = 7, Label = ()\<rparr>],
             [\<lparr>To = 5, Label = ()\<rparr>, \<lparr>To = 0, Label = ()\<rparr>],
             [\<lparr>To = 6, Label = ()\<rparr>],
             [\<lparr>To = 5, Label = ()\<rparr>],
             [\<lparr>To = 3, Label = ()\<rparr>, \<lparr>To = 6, Label = ()\<rparr>]] :: unit LabeledAdjacencyList"
  let ?emit = "\<lambda>(c :: NI list) (r :: NI list list). (length r < 1, r @ [c])"
  let ?log = "[([6, 5], True), ([7, 3, 2 :: NI], False)]"
  have b: "BoundsOk ?g" by (simp add: BoundsOk_def)
  have r: "Tarjan ?g (logged ?emit) ([], []) = Inr ([[6, 5], [7, 3, 2]], ?log)" by code_simp
  have k: "(1::nat) < length ?log" "\<not> snd (?log ! 1)" by simp_all
  have "Suc 1 = length ?log"
    using Tarjan_emit_false_is_last [of ?g ?emit "[]"] r k by blast
  then show ?thesis using b r k by simp
qed

subsection \<open>The condensation graph\<close>

lemma cond_mark_correct:
  "set c \<subseteq> nodes g \<Longrightarrow> length cond = length g \<Longrightarrow>
     \<exists>cond'. cond_mark c cn cond = Inr cond' \<and> length cond' = length g \<and>
       (\<forall>n \<in> nodes g. cond' ! nat n = (if n \<in> set c then cn else cond ! nat n))"
proof (induction c arbitrary: cond)
  case Nil
  then show ?case by simp
next
  case (Cons a c)
  have a: "a \<in> nodes g" and c: "set c \<subseteq> nodes g" using Cons.prems(1) by simp_all
  have p: "put cond a cn = Inr (cond[nat a := cn])" using put_node [OF a Cons.prems(2)] .
  have l: "length (cond[nat a := cn]) = length g" using Cons.prems(2) by simp
  from Cons.IH [OF c l] obtain cond' where
    r: "cond_mark c cn (cond[nat a := cn]) = Inr cond'" and l': "length cond' = length g"
    and v: "\<forall>n \<in> nodes g. cond' ! nat n = (if n \<in> set c then cn else cond[nat a := cn] ! nat n)"
    by blast
  have "cond' ! nat n = (if n \<in> set (a # c) then cn else cond ! nat n)" if n: "n \<in> nodes g" for n
  proof (cases "n = a")
    case True
    have "nat a < length cond" using a Cons.prems(2) by (auto simp: nodes_def)
    then show ?thesis using v n True by simp
  next
    case False
    then have "nat a \<noteq> nat n" using nat_eq_nodes [OF a n] by simp
    then show ?thesis using v n False by simp
  qed
  then show ?case using p r l' by simp
qed

lemma cond_arcs_correct:
  "length cond = length g \<Longrightarrow> \<forall>h \<in> set hs. To h \<in> nodes g \<Longrightarrow> \<forall>i < length cond. 0 \<le> cond ! i \<Longrightarrow>
   distinct ts \<Longrightarrow> cn \<notin> set ts \<Longrightarrow>
     \<exists>ts'. cond_arcs hs cond (ts, insert cn (set ts)) = Inr (ts', insert cn (set ts')) \<and>
       distinct ts' \<and> cn \<notin> set ts' \<and>
       set ts' = set ts \<union> ((\<lambda>h. cond ! nat (To h)) ` set hs - {cn})"
proof (induction hs arbitrary: ts)
  case Nil
  then show ?case by simp
next
  case (Cons h hs)
  note l = Cons.prems(1) and nn = Cons.prems(3)
  have h: "To h \<in> nodes g" and hs: "\<forall>h \<in> set hs. To h \<in> nodes g" using Cons.prems(2) by simp_all
  let ?ct = "cond ! nat (To h)"
  have a: "at cond (To h) = Inr ?ct" using at_node [OF h l] .
  have k: "nat (To h) < length cond" using h l by (auto simp: nodes_def)
  have c0: "\<not> ?ct < 0" using nn k by (simp add: not_less)
  show ?case
  proof (cases "?ct \<in> insert cn (set ts)")
    case True
    from Cons.IH [OF l hs nn Cons.prems(4,5)] obtain ts' where
      r: "cond_arcs hs cond (ts, insert cn (set ts)) = Inr (ts', insert cn (set ts'))"
      and p: "distinct ts'" "cn \<notin> set ts'"
        "set ts' = set ts \<union> ((\<lambda>h. cond ! nat (To h)) ` set hs - {cn})"
      by blast
    have "cond_arcs (h # hs) cond (ts, insert cn (set ts)) = Inr (ts', insert cn (set ts'))"
      using a c0 True r by simp
    moreover have "set ts' = set ts \<union> ((\<lambda>h. cond ! nat (To h)) ` set (h # hs) - {cn})"
      using p(3) True by auto
    ultimately show ?thesis using p(1,2) by blast
  next
    case False
    then have d: "distinct (ts @ [?ct])" and c: "cn \<notin> set (ts @ [?ct])"
      using Cons.prems(4,5) by auto
    from Cons.IH [OF l hs nn d c] obtain ts' where
      r: "cond_arcs hs cond (ts @ [?ct], insert cn (set (ts @ [?ct])))
            = Inr (ts', insert cn (set ts'))"
      and p: "distinct ts'" "cn \<notin> set ts'"
        "set ts' = set (ts @ [?ct]) \<union> ((\<lambda>h. cond ! nat (To h)) ` set hs - {cn})"
      by blast
    have e: "insert ?ct (insert cn (set ts)) = insert cn (set (ts @ [?ct]))" by auto
    have "cond_arcs (h # hs) cond (ts, insert cn (set ts)) = Inr (ts', insert cn (set ts'))"
      using a c0 False r e by simp
    moreover have "set ts' = set ts \<union> ((\<lambda>h. cond ! nat (To h)) ` set (h # hs) - {cn})"
      using p(3) False by auto
    ultimately show ?thesis using p(1,2) by blast
  qed
qed

lemma cond_members_correct:
  assumes b: "BoundsOk g"
  shows "length cond = length g \<Longrightarrow> set c \<subseteq> nodes g \<Longrightarrow> \<forall>i < length cond. 0 \<le> cond ! i \<Longrightarrow>
   distinct ts \<Longrightarrow> cn \<notin> set ts \<Longrightarrow>
     \<exists>ts'. cond_members g c cond (ts, insert cn (set ts)) = Inr (ts', insert cn (set ts')) \<and>
       distinct ts' \<and> cn \<notin> set ts' \<and>
       set ts' = set ts \<union> ({cond ! nat v | u v. u \<in> set c \<and> (u, v) \<in> arcs g} - {cn})"
proof (induction c arbitrary: ts)
  case Nil
  then show ?case by simp
next
  case (Cons a c)
  note l = Cons.prems(1) and nn = Cons.prems(3)
  have a: "a \<in> nodes g" and c: "set c \<subseteq> nodes g" using Cons.prems(2) by simp_all
  let ?hs = "g ! nat a"
  have g: "at g a = Inr ?hs" using at_node [OF a refl] .
  have hs: "\<forall>h \<in> set ?hs. To h \<in> nodes g"
  proof
    fix h assume "h \<in> set ?hs"
    then have "(a, To h) \<in> arcs g" using arcs_of_node [OF a] by blast
    then show "To h \<in> nodes g" using BoundsOk_arcs [OF b] by (simp add: nodes_def)
  qed
  from cond_arcs_correct [OF l hs nn Cons.prems(4,5)] obtain ts1 where
    r1: "cond_arcs ?hs cond (ts, insert cn (set ts)) = Inr (ts1, insert cn (set ts1))"
    and p1: "distinct ts1" "cn \<notin> set ts1"
      "set ts1 = set ts \<union> ((\<lambda>h. cond ! nat (To h)) ` set ?hs - {cn})"
    by blast
  from Cons.IH [OF l c nn p1(1,2)] obtain ts' where
    r: "cond_members g c cond (ts1, insert cn (set ts1)) = Inr (ts', insert cn (set ts'))"
    and p: "distinct ts'" "cn \<notin> set ts'"
      "set ts' = set ts1 \<union> ({cond ! nat v | u v. u \<in> set c \<and> (u, v) \<in> arcs g} - {cn})"
    by blast
  have res: "cond_members g (a # c) cond (ts, insert cn (set ts)) = Inr (ts', insert cn (set ts'))"
    using g r1 r by simp
  have e: "(\<lambda>h. cond ! nat (To h)) ` set ?hs = {cond ! nat v | v. (a, v) \<in> arcs g}"
    using arcs_of_node [OF a] by auto
  have "{cond ! nat v | u v. u \<in> set (a # c) \<and> (u, v) \<in> arcs g}
      = {cond ! nat v | v. (a, v) \<in> arcs g} \<union> {cond ! nat v | u v. u \<in> set c \<and> (u, v) \<in> arcs g}"
    by auto
  then have "set ts' = set ts \<union> ({cond ! nat v | u v. u \<in> set (a # c) \<and> (u, v) \<in> arcs g} - {cn})"
    using p(3) p1(3) e by auto
  then show ?case using res p(1,2) by blast
qed

lemma TarjanForward_fwd_ok:
  assumes "BoundsOk g"
  shows "\<exists>scc. TarjanForward g = Inr scc \<and> fwd_ok g scc"
proof -
  from TarjanForward_correct [OF assms] obtain es where
    F: "TarjanForward g = Inr (rev es)"
    and d: "distinct (concat es)" and s: "set (concat es) = nodes g"
    and cl: "\<forall>k \<le> length es. closed g (set (concat (take k es)))"
    by blast
  have s': "set (concat (rev es)) = nodes g" using s by simp
  have d': "distinct (concat (rev es))" using d by (simp add: distinct_concat_rev)
  have ord: "(u, v) \<notin> arcs g"
    if lt: "i < j" "j < length (rev es)" and u: "u \<in> set (rev es ! j)" and v: "v \<in> set (rev es ! i)"
    for i j u v
  proof -
    let ?a = "length es - Suc j" and ?b = "length es - Suc i"
    have 1: "rev es ! j = es ! ?a" "rev es ! i = es ! ?b" using lt by (simp_all add: rev_nth)
    have 2: "?a < ?b" "?b < length es" using lt by simp_all
    show ?thesis using closed_prefixes_order [OF d cl 2] u v 1 by simp
  qed
  have "fwd_ok g (rev es)" unfolding fwd_ok_def using s' d' ord by blast
  then show ?thesis using F by blast
qed

lemma fwd_okD:
  assumes "fwd_ok g scc"
  shows "distinct (concat scc)" "set (concat scc) = nodes g"
    "\<And>i j u v. i < j \<Longrightarrow> j < length scc \<Longrightarrow> u \<in> set (scc ! j) \<Longrightarrow> v \<in> set (scc ! i) \<Longrightarrow>
        (u, v) \<notin> arcs g"
proof -
  from assms have 1: "distinct (concat scc)" and 2: "set (concat scc) = nodes g"
    and 3: "\<forall>i j u v. i < j \<longrightarrow> j < length scc \<longrightarrow> u \<in> set (scc ! j) \<longrightarrow> v \<in> set (scc ! i) \<longrightarrow>
        (u, v) \<notin> arcs g"
    unfolding fwd_ok_def by (rule conjunct1, rule conjunct2 [THEN conjunct1], rule conjunct2 [THEN conjunct2])
  show "distinct (concat scc)" by (rule 1)
  show "set (concat scc) = nodes g" by (rule 2)
  show "(u, v) \<notin> arcs g"
    if "i < j" "j < length scc" "u \<in> set (scc ! j)" "v \<in> set (scc ! i)" for i j u v
    using 3 [rule_format, OF that] .
qed

lemma fwd_ok_member:
  assumes f: "fwd_ok g scc" and j: "j < length scc" and n: "n \<in> set (scc ! j)"
  shows "n \<in> nodes g"
proof -
  have "scc ! j \<in> set scc" using j by simp
  then have "n \<in> set (concat scc)" using n by auto
  then show ?thesis unfolding fwd_okD(2) [OF f] .
qed

lemma fwd_ok_target:
  assumes b: "BoundsOk g" and f: "fwd_ok g scc" and k: "k < length scc"
    and u: "u \<in> set (scc ! k)" and a: "(u, v) \<in> arcs g"
  shows "\<exists>y. k \<le> y \<and> y < length scc \<and> v \<in> set (scc ! y)"
proof -
  have "v \<in> nodes g" using BoundsOk_arcs [OF b a] by (simp add: nodes_def)
  then have "v \<in> set (concat scc)" unfolding fwd_okD(2) [OF f] .
  then obtain y where y: "y < length scc" "v \<in> set (scc ! y)" using in_concat_block [of v scc] by blast
  have "\<not> y < k" using fwd_okD(3) [OF f _ k u y(2)] a by blast
  then have "k \<le> y" by simp
  then show ?thesis using y by blast
qed

lemma cond_loop_correct:
  assumes b: "BoundsOk g" and f: "fwd_ok g scc"
  shows "k \<le> length scc \<Longrightarrow> length cd = length scc \<Longrightarrow> length cond = length g \<Longrightarrow>
     \<forall>i < length cond. 0 \<le> cond ! i \<Longrightarrow>
     \<forall>j n. k \<le> j \<and> j < length scc \<and> n \<in> set (scc ! j) \<longrightarrow> cond ! nat n = int j \<Longrightarrow>
     \<forall>j. k \<le> j \<and> j < length scc \<longrightarrow> cd_row g scc j (cd ! j) \<Longrightarrow>
     \<exists>cd'. cond_loop g scc k cd cond = Inr cd' \<and> length cd' = length scc \<and>
       (\<forall>j < length scc. cd_row g scc j (cd' ! j))"
proof (induction k arbitrary: cd cond)
  case 0
  then show ?case by simp
next
  case (Suc k)
  note lcd = Suc.prems(2) and lcond = Suc.prems(3) and nn = Suc.prems(4)
    and inv1 = Suc.prems(5) and inv2 = Suc.prems(6)
  have k: "k < length scc" using Suc.prems(1) by simp
  let ?c = "scc ! k"
  have a: "at scc (int k) = Inr ?c" using k by (simp add: at_def)
  have csub: "set ?c \<subseteq> nodes g" using fwd_ok_member [OF f k] by blast
  from cond_mark_correct [OF csub lcond, of "int k"] obtain cond1 where
    r1: "cond_mark ?c (int k) cond = Inr cond1" and l1: "length cond1 = length g"
    and v1: "\<forall>n \<in> nodes g. cond1 ! nat n = (if n \<in> set ?c then int k else cond ! nat n)"
    by blast
  have nn1: "\<forall>i < length cond1. 0 \<le> cond1 ! i"
  proof (intro allI impI)
    fix i assume i: "i < length cond1"
    then have "int i \<in> nodes g" using l1 by (simp add: nodes_def)
    then have "cond1 ! nat (int i) = (if int i \<in> set ?c then int k else cond ! nat (int i))"
      using v1 by blast
    then show "0 \<le> cond1 ! i" using nn i l1 lcond by simp
  qed
  have inv1': "cond1 ! nat n = int j" if j: "k \<le> j" "j < length scc" and n: "n \<in> set (scc ! j)" for j n
  proof -
    have nd: "n \<in> nodes g" using fwd_ok_member [OF f j(2) n] .
    show ?thesis
    proof (cases "j = k")
      case True
      then show ?thesis using v1 nd n by simp
    next
      case False
      then have lt: "k < j" using j(1) by simp
      have "n \<notin> set ?c" using concat_blocks_disjoint [OF fwd_okD(1) [OF f] lt j(2)] n by blast
      then have "cond1 ! nat n = cond ! nat n" using v1 nd by simp
      moreover have "cond ! nat n = int j" using inv1 lt j(2) n by simp
      ultimately show ?thesis by simp
    qed
  qed
  from cond_members_correct [OF b l1 csub nn1, of "[]" "int k"] obtain ts where
    r2: "cond_members g ?c cond1 ([], {int k}) = Inr (ts, insert (int k) (set ts))"
    and d: "distinct ts"
    and s: "set ts = {cond1 ! nat v | u v. u \<in> set ?c \<and> (u, v) \<in> arcs g} - {int k}"
    by auto
  have row: "cd_row g scc k ts"
  proof -
    have "set ts = {int y | y. y < length scc \<and> y \<noteq> k \<and>
                  (\<exists>u \<in> set ?c. \<exists>v \<in> set (scc ! y). (u, v) \<in> arcs g)}" (is "_ = ?R")
    proof (intro set_eqI iffI)
      fix x assume "x \<in> set ts"
      then obtain u v where x: "x = cond1 ! nat v" "u \<in> set ?c" "(u, v) \<in> arcs g" "x \<noteq> int k"
        using s by auto
      from fwd_ok_target [OF b f k x(2,3)] obtain y where
        y: "k \<le> y" "y < length scc" "v \<in> set (scc ! y)" by blast
      have "x = int y" using inv1' [OF y] x(1) by simp
      moreover have "y \<noteq> k" using x(4) \<open>x = int y\<close> by auto
      ultimately show "x \<in> ?R" using y(2,3) x(2,3) by blast
    next
      fix x assume "x \<in> ?R"
      then obtain y u v where x: "x = int y" "y < length scc" "y \<noteq> k"
        "u \<in> set ?c" "v \<in> set (scc ! y)" "(u, v) \<in> arcs g" by blast
      have "\<not> y < k" using fwd_okD(3) [OF f _ k x(4,5)] x(6) by blast
      then have ky: "k \<le> y" by simp
      have "cond1 ! nat v = int y" using inv1' [OF ky x(2,5)] .
      then have "x \<in> {cond1 ! nat v | u v. u \<in> set ?c \<and> (u, v) \<in> arcs g}"
        using x(1,4,6) by force
      moreover have "x \<noteq> int k" using x(1,3) by simp
      ultimately show "x \<in> set ts" using s by blast
    qed
    then show ?thesis using d unfolding cd_row_def by blast
  qed
  have p: "put cd (int k) ts = Inr (cd[k := ts])" using k lcd by (simp add: put_def)
  have k': "k \<le> length scc" using k by simp
  have lcd': "length (cd[k := ts]) = length scc" using lcd by simp
  have i1: "\<forall>j n. k \<le> j \<and> j < length scc \<and> n \<in> set (scc ! j) \<longrightarrow> cond1 ! nat n = int j"
    using inv1' by blast
  have i2: "\<forall>j. k \<le> j \<and> j < length scc \<longrightarrow> cd_row g scc j (cd[k := ts] ! j)"
  proof (intro allI impI)
    fix j assume j: "k \<le> j \<and> j < length scc"
    show "cd_row g scc j (cd[k := ts] ! j)"
    proof (cases "j = k")
      case True
      then show ?thesis using row k lcd by simp
    next
      case False
      then have "cd_row g scc j (cd ! j)" using inv2 j by simp
      then show ?thesis using False by simp
    qed
  qed
  from Suc.IH [OF k' lcd' l1 nn1 i1 i2] obtain cd' where
    r: "cond_loop g scc k (cd[k := ts]) cond1 = Inr cd'" and q: "length cd' = length scc"
      "\<forall>j < length scc. cd_row g scc j (cd' ! j)"
    by blast
  have "cond_loop g scc (Suc k) cd cond = Inr cd'" using a r1 r2 p r by simp
  then show ?case using q by blast
qed

lemma TarjanCondensation_rows:
  assumes b: "BoundsOk g"
  shows "\<exists>scc cd. TarjanCondensation g = Inr (scc, cd) \<and> TarjanForward g = Inr scc \<and>
     fwd_ok g scc \<and> length cd = length scc \<and> (\<forall>j < length scc. cd_row g scc j (cd ! j))"
proof -
  from TarjanForward_fwd_ok [OF b] obtain scc where
    F: "TarjanForward g = Inr scc" and f: "fwd_ok g scc" by blast
  have "\<exists>cd'. cond_loop g scc (length scc) (replicate (length scc) []) (replicate (length g) 0)
          = Inr cd' \<and> length cd' = length scc \<and> (\<forall>j < length scc. cd_row g scc j (cd' ! j))"
  proof (rule cond_loop_correct [OF b f])
    show "\<forall>j n. length scc \<le> j \<and> j < length scc \<and> n \<in> set (scc ! j) \<longrightarrow>
       replicate (length g) 0 ! nat n = int j" by auto
    show "\<forall>j. length scc \<le> j \<and> j < length scc \<longrightarrow>
       cd_row g scc j (replicate (length scc) [] ! j)" by auto
  qed simp_all
  then obtain cd where
    r: "cond_loop g scc (length scc) (replicate (length scc) []) (replicate (length g) 0) = Inr cd"
    and q: "length cd = length scc" "\<forall>j < length scc. cd_row g scc j (cd ! j)"
    by blast
  have "TarjanCondensation g = Inr (scc, cd)" using F r by (simp add: TarjanCondensation_def)
  then show ?thesis using F f q by blast
qed

text \<open>
  Claim C5. For a graph with arc targets in range, \<open>TarjanCondensation\<close> returns the
  components of \<open>TarjanForward\<close> and a graph with one node for each component, which is
  acyclic; no row of it lists a component twice or lists the component of the row itself;
  and the row of the component \<open>x\<close> lists the component \<open>y\<close> if and only if \<open>x\<close> and \<open>y\<close>
  differ and some arc of the graph leads from a member of \<open>x\<close> to a member of \<open>y\<close>.
\<close>

theorem TarjanCondensation_correct:
  assumes "BoundsOk g"
  shows "\<exists>scc cd. TarjanCondensation g = Inr (scc, cd) \<and> TarjanForward g = Inr scc
           \<and> length cd = length scc \<and> BoundsOkU cd \<and> acyclic (arcsU cd)
           \<and> (\<forall>x < length cd. distinct (cd ! x) \<and> int x \<notin> set (cd ! x))
           \<and> (\<forall>x y. x < length scc \<and> y < length scc \<longrightarrow>
                 (int y \<in> set (cd ! x) \<longleftrightarrow>
                    x \<noteq> y \<and> (\<exists>u \<in> set (scc ! x). \<exists>v \<in> set (scc ! y). (u, v) \<in> arcs g)))"
proof -
  from TarjanCondensation_rows [OF assms] obtain scc cd where
    T: "TarjanCondensation g = Inr (scc, cd)" and F: "TarjanForward g = Inr scc"
    and f: "fwd_ok g scc" and l: "length cd = length scc"
    and rows: "\<forall>j < length scc. cd_row g scc j (cd ! j)"
    by blast
  have row: "distinct (cd ! x)"
    "set (cd ! x) = {int y | y. y < length scc \<and> y \<noteq> x \<and>
                  (\<exists>u \<in> set (scc ! x). \<exists>v \<in> set (scc ! y). (u, v) \<in> arcs g)}"
    if "x < length scc" for x
    using rows that unfolding cd_row_def by blast+
  have up: "int x < y" if x: "x < length scc" and y: "y \<in> set (cd ! x)" for x y
  proof -
    from y row(2) [OF x] obtain y' u v where y': "y = int y'" "y' < length scc" "y' \<noteq> x"
      "u \<in> set (scc ! x)" "v \<in> set (scc ! y')" "(u, v) \<in> arcs g" by blast
    have "\<not> y' < x" using fwd_okD(3) [OF f _ x y'(4,5)] y'(6) by blast
    then show ?thesis using y'(1,3) by simp
  qed
  have bo: "BoundsOkU cd"
    unfolding BoundsOkU_def
  proof (intro ballI)
    fix ts t assume ts: "ts \<in> set cd" and t: "t \<in> set ts"
    from ts obtain x where x: "x < length cd" "cd ! x = ts" unfolding in_set_conv_nth by blast
    then have "t \<in> set (cd ! x)" "x < length scc" using t l by simp_all
    then show "0 \<le> t \<and> t < int (length cd)" using row(2) [of x] l by auto
  qed
  have ac: "acyclic (arcsU cd)"
  proof (rule acyclicI_order [where f = uminus])
    fix a b assume "(a, b) \<in> arcsU cd"
    then have a: "0 \<le> a" "a < int (length cd)" "b \<in> set (cd ! nat a)" by (simp_all add: arcsU_def)
    then have "nat a < length scc" using l by simp
    from up [OF this a(3)] a(1) show "- b < - a" by simp
  qed
  have nd: "\<forall>x < length cd. distinct (cd ! x) \<and> int x \<notin> set (cd ! x)"
  proof (intro allI impI)
    fix x assume "x < length cd"
    then have x: "x < length scc" using l by simp
    show "distinct (cd ! x) \<and> int x \<notin> set (cd ! x)" using row(1) [OF x] up [OF x, of "int x"] by auto
  qed
  have iff: "\<forall>x y. x < length scc \<and> y < length scc \<longrightarrow>
                 (int y \<in> set (cd ! x) \<longleftrightarrow>
                    x \<noteq> y \<and> (\<exists>u \<in> set (scc ! x). \<exists>v \<in> set (scc ! y). (u, v) \<in> arcs g))"
  proof (intro allI impI)
    fix x y assume xy: "x < length scc \<and> y < length scc"
    then have x: "x < length scc" and y: "y < length scc" by simp_all
    show "int y \<in> set (cd ! x) \<longleftrightarrow>
            x \<noteq> y \<and> (\<exists>u \<in> set (scc ! x). \<exists>v \<in> set (scc ! y). (u, v) \<in> arcs g)"
      unfolding row(2) [OF x] using y by auto
  qed
  show ?thesis using T F l bo ac nd iff by blast
qed

theorem TarjanCondensation_correct_witness:
  "BoundsOk [[\<lparr>To = 1, Label = ()\<rparr>],
             [\<lparr>To = 4, Label = ()\<rparr>, \<lparr>To = 2, Label = ()\<rparr>, \<lparr>To = 5, Label = ()\<rparr>],
             [\<lparr>To = 3, Label = ()\<rparr>, \<lparr>To = 6, Label = ()\<rparr>],
             [\<lparr>To = 2, Label = ()\<rparr>, \<lparr>To = 7, Label = ()\<rparr>],
             [\<lparr>To = 5, Label = ()\<rparr>, \<lparr>To = 0, Label = ()\<rparr>],
             [\<lparr>To = 6, Label = ()\<rparr>],
             [\<lparr>To = 5, Label = ()\<rparr>],
             [\<lparr>To = 3, Label = ()\<rparr>, \<lparr>To = 6, Label = ()\<rparr>]]
   \<and> TarjanCondensation [[\<lparr>To = 1, Label = ()\<rparr>],
             [\<lparr>To = 4, Label = ()\<rparr>, \<lparr>To = 2, Label = ()\<rparr>, \<lparr>To = 5, Label = ()\<rparr>],
             [\<lparr>To = 3, Label = ()\<rparr>, \<lparr>To = 6, Label = ()\<rparr>],
             [\<lparr>To = 2, Label = ()\<rparr>, \<lparr>To = 7, Label = ()\<rparr>],
             [\<lparr>To = 5, Label = ()\<rparr>, \<lparr>To = 0, Label = ()\<rparr>],
             [\<lparr>To = 6, Label = ()\<rparr>],
             [\<lparr>To = 5, Label = ()\<rparr>],
             [\<lparr>To = 3, Label = ()\<rparr>, \<lparr>To = 6, Label = ()\<rparr>]]
       = Inr ([[4, 1, 0], [7, 3, 2], [6, 5]], [[2, 1], [2], []])"
proof -
  let ?g = "[[\<lparr>To = 1, Label = ()\<rparr>],
             [\<lparr>To = 4, Label = ()\<rparr>, \<lparr>To = 2, Label = ()\<rparr>, \<lparr>To = 5, Label = ()\<rparr>],
             [\<lparr>To = 3, Label = ()\<rparr>, \<lparr>To = 6, Label = ()\<rparr>],
             [\<lparr>To = 2, Label = ()\<rparr>, \<lparr>To = 7, Label = ()\<rparr>],
             [\<lparr>To = 5, Label = ()\<rparr>, \<lparr>To = 0, Label = ()\<rparr>],
             [\<lparr>To = 6, Label = ()\<rparr>],
             [\<lparr>To = 5, Label = ()\<rparr>],
             [\<lparr>To = 3, Label = ()\<rparr>, \<lparr>To = 6, Label = ()\<rparr>]] :: unit LabeledAdjacencyList"
  have b: "BoundsOk ?g" by (simp add: BoundsOk_def)
  from TarjanCondensation_correct [OF b] obtain scc cd where
    "TarjanCondensation ?g = Inr (scc, cd)" by blast
  moreover have "TarjanCondensation ?g = Inr ([[4, 1, 0], [7, 3, 2], [6, 5]], [[2, 1], [2], []])"
    by code_simp
  ultimately show ?thesis using b by simp
qed

end
